theory Spec2Isabelle
  imports Complex_Main
begin

section \<open>Values\<close>

text \<open>
  The script handles the values that \<^verbatim>\<open>json.loads\<close> produces: \<^verbatim>\<open>None\<close>, booleans, integers,
  floats, strings, lists and dictionaries. A Python \<^verbatim>\<open>str\<close> is a \<open>string\<close> here, read as a
  sequence of code points below 256. A float is a rational, an infinity or a NaN: only its
  comparison with zero and its truncation to an integer are used. A dictionary is an
  association list read with \<open>map_of\<close>.
\<close>

datatype pyfloat = Fin rat | PosInf | NegInf | NaN

datatype json =
    JNull
  | JBool bool
  | JInt int
  | JFloat pyfloat
  | JStr string
  | JArr "json list"
  | JObj "(string \<times> json) list"

type_synonym pydict = "(string \<times> json) list"

datatype error =
    RuntimeError string
  | AttributeError
  | ValueError
  | JSONDecodeError

datatype body = Raw string | Dumped json

datatype request = GET string | POST string body string

record response =
  status :: int
  resp_text :: string
  elapsed :: nat

text \<open>
  The environment. \<open>http E n rq\<close> is the answer of the remote service to the request \<open>rq\<close>
  when \<open>n\<close> requests have been sent before it. The library functions whose results the
  script only passes on are parameters as well: \<^verbatim>\<open>json.loads\<close> (\<open>None\<close> when it raises),
  \<^verbatim>\<open>str\<close> on a value that is not a string, and \<^verbatim>\<open>int\<close> on a string (\<open>None\<close> when it raises).
\<close>

record env =
  http :: "nat \<Rightarrow> request \<Rightarrow> response"
  json_loads :: "string \<Rightarrow> json option"
  str_other :: "json \<Rightarrow> string"
  int_of_str :: "string \<Rightarrow> int option"

section \<open>Strings\<close>

definition is_space :: "char \<Rightarrow> bool" where
  "is_space c =
     (let n = (of_char c :: nat)
      in (9 \<le> n \<and> n \<le> 13) \<or> (28 \<le> n \<and> n \<le> 32) \<or> n = 133 \<or> n = 160)"

definition lower_char :: "char \<Rightarrow> char" where
  "lower_char c =
     (let n = (of_char c :: nat)
      in if (65 \<le> n \<and> n \<le> 90) \<or> (192 \<le> n \<and> n \<le> 222 \<and> n \<noteq> 215)
         then char_of (n + 32) else c)"

definition py_lower :: "string \<Rightarrow> string" where
  "py_lower s = map lower_char s"

definition py_strip :: "string \<Rightarrow> string" where
  "py_strip s = rev (dropWhile is_space (rev (dropWhile is_space s)))"

text \<open>\<^verbatim>\<open>re.sub(r"\s+", " ", s)\<close>: every maximal run of whitespace becomes one space.\<close>

function collapse_ws :: "string \<Rightarrow> string" where
  "collapse_ws [] = []"
| "collapse_ws (c # cs) =
     (if is_space c then CHR '' '' # collapse_ws (dropWhile is_space cs)
      else c # collapse_ws cs)"
  by pat_completeness auto
termination
  by (relation "measure length") (auto simp: length_dropWhile_le less_Suc_eq_le)

fun starts_with :: "string \<Rightarrow> string \<Rightarrow> bool" where
  "starts_with s [] = True"
| "starts_with [] (p # ps) = False"
| "starts_with (c # cs) (p # ps) = (c = p \<and> starts_with cs ps)"

text \<open>\<^verbatim>\<open>s.find(sub)\<close>: the least index at which \<open>sub\<close> occurs in \<open>s\<close>, or \<open>-1\<close>.\<close>

fun py_find :: "string \<Rightarrow> string \<Rightarrow> int" where
  "py_find [] sub = (if sub = [] then 0 else - 1)"
| "py_find (c # cs) sub =
     (if starts_with (c # cs) sub then 0
      else (let r = py_find cs sub in if r < 0 then - 1 else r + 1))"

text \<open>\<^verbatim>\<open>sub in s\<close> on strings.\<close>

definition py_in :: "string \<Rightarrow> string \<Rightarrow> bool" where
  "py_in sub s = (0 \<le> py_find s sub)"

section \<open>Python helpers on values\<close>

text \<open>\<^verbatim>\<open>d.get(k)\<close> and \<^verbatim>\<open>d.get(k, default)\<close>.\<close>

definition py_get :: "pydict \<Rightarrow> string \<Rightarrow> json" where
  "py_get d k = (case map_of d k of None \<Rightarrow> JNull | Some v \<Rightarrow> v)"

definition py_get_default :: "pydict \<Rightarrow> string \<Rightarrow> json \<Rightarrow> json" where
  "py_get_default d k dflt = (case map_of d k of None \<Rightarrow> dflt | Some v \<Rightarrow> v)"

text \<open>The truth value Python gives an object in \<^verbatim>\<open>not x\<close>, \<^verbatim>\<open>x or y\<close> and \<^verbatim>\<open>if x\<close>.\<close>

fun py_truth :: "json \<Rightarrow> bool" where
  "py_truth JNull = False"
| "py_truth (JBool b) = b"
| "py_truth (JInt n) = (n \<noteq> 0)"
| "py_truth (JFloat f) = (f \<noteq> Fin 0)"
| "py_truth (JStr s) = (s \<noteq> [])"
| "py_truth (JArr xs) = (xs \<noteq> [])"
| "py_truth (JObj d) = (d \<noteq> [])"

definition py_or :: "json \<Rightarrow> json \<Rightarrow> json" where
  "py_or a b = (if py_truth a then a else b)"

definition py_str :: "env \<Rightarrow> json \<Rightarrow> string" where
  "py_str E v = (case v of JStr s \<Rightarrow> s | _ \<Rightarrow> str_other E v)"

text \<open>\<^verbatim>\<open>int(x)\<close>; \<open>None\<close> where Python raises.\<close>

fun py_int :: "env \<Rightarrow> json \<Rightarrow> int option" where
  "py_int E JNull = None"
| "py_int E (JBool b) = Some (if b then 1 else 0)"
| "py_int E (JInt n) = Some n"
| "py_int E (JFloat (Fin r)) = Some (if 0 \<le> r then \<lfloor>r\<rfloor> else \<lceil>r\<rceil>)"
| "py_int E (JFloat f) = None"
| "py_int E (JStr s) = int_of_str E s"
| "py_int E (JArr xs) = None"
| "py_int E (JObj d) = None"

section \<open>normalize and truthy\<close>

definition normalize :: "env \<Rightarrow> json \<Rightarrow> string" where
  "normalize E x =
     (if x = JNull then [] else collapse_ws (py_lower (py_strip (py_str E x))))"

definition truthy_words :: "string list" where
  "truthy_words =
     [''true'', ''1'', ''yes'', ''installed'', ''ok'', ''enabled'', ''active'',
      ''success'', ''completed'', ''done'']"

fun truthy :: "env \<Rightarrow> json \<Rightarrow> bool" where
  "truthy E (JBool b) = b"
| "truthy E (JInt n) = (n \<noteq> 0)"
| "truthy E (JFloat f) = (f \<noteq> Fin 0)"
| "truthy E (JStr s) = (normalize E (JStr s) \<in> set truthy_words)"
| "truthy E v = False"

section \<open>Lenient pickers\<close>

text \<open>The body of the loop of \<^verbatim>\<open>pick_node\<close>: the score of one catalog entry.\<close>

definition node_score :: "env \<Rightarrow> string \<Rightarrow> pydict \<Rightarrow> int" where
  "node_score E q m =
     (let mid = normalize E (py_get m ''id'');
          title = normalize E (py_get m ''title'');
          repo = normalize E
                   (py_or (py_or (py_get m ''repository'') (py_get m ''repo''))
                      (py_get m ''pkg_name''));
          state = normalize E (py_get m ''state'');
          score =
            (if mid = q \<or> title = q then 10000
             else (if q \<noteq> [] \<and> 0 \<le> py_find mid q then 400 else 0)
                + (if q \<noteq> [] \<and> 0 \<le> py_find title q then 350 else 0)
                + (if q \<noteq> [] \<and> 0 \<le> py_find repo q then 250 else 0))
      in if state = ''not-installed''
            \<or> (state = [] \<and> \<not> (truthy E (py_get m ''installed'')
                                 \<or> truthy E (py_get m ''is_installed'')))
         then score + 50 else score)"

fun pick_node_loop ::
  "env \<Rightarrow> string \<Rightarrow> pydict list \<Rightarrow> pydict option \<Rightarrow> int \<Rightarrow> pydict option \<times> int" where
  "pick_node_loop E q [] best best_score = (best, best_score)"
| "pick_node_loop E q (m # ms) best best_score =
     (let score = node_score E q m
      in if score > best_score then pick_node_loop E q ms (Some m) score
         else pick_node_loop E q ms best best_score)"

definition pick_node :: "env \<Rightarrow> pydict list \<Rightarrow> string \<Rightarrow> pydict option \<times> int" where
  "pick_node E catalog query = pick_node_loop E (normalize E (JStr query)) catalog None (- 1)"

text \<open>The body of the loop of \<^verbatim>\<open>pick_model\<close>.\<close>

definition model_score :: "env \<Rightarrow> string \<Rightarrow> pydict \<Rightarrow> int" where
  "model_score E q m =
     (let fn = normalize E (py_get m ''filename'');
          nm = normalize E (py_get m ''name'');
          installed = truthy E (py_get m ''installed'')
      in if fn = q \<or> nm = q then 1000
         else (let score = (if q \<noteq> [] \<and> 0 \<le> py_find fn q then 400 else 0)
                         + (if q \<noteq> [] \<and> 0 \<le> py_find nm q then 300 else 0)
                         + (if \<not> installed then 50 else 0);
                   looks_file = py_in ''.'' q
               in if looks_file \<and> \<not> (fn = q \<or> 0 \<le> py_find fn q) then - 1 else score))"

fun pick_model_loop ::
  "env \<Rightarrow> string \<Rightarrow> pydict list \<Rightarrow> pydict option \<Rightarrow> int \<Rightarrow> pydict option \<times> int" where
  "pick_model_loop E q [] best best_score = (best, best_score)"
| "pick_model_loop E q (m # ms) best best_score =
     (let score = model_score E q m
      in if score > best_score then pick_model_loop E q ms (Some m) score
         else pick_model_loop E q ms best best_score)"

definition pick_model :: "env \<Rightarrow> pydict list \<Rightarrow> string \<Rightarrow> pydict option \<times> int" where
  "pick_model E catalog query =
     (case pick_model_loop E (normalize E (JStr query)) catalog None (- 1) of
        (best, best_score) \<Rightarrow> ((if best_score \<ge> 250 then best else None), best_score))"


section \<open>Time and transport\<close>

text \<open>
  The world outside the script: the wall clock in seconds and the requests sent so far,
  each with the time at which it was sent. A request takes at least one millisecond;
  \<open>elapsed\<close> counts the further ones. The transport is taken to answer every request
  with a status and a body. Authentication headers and log lines are left out, as are
  the counters that only feed log lines. The floats of the script (times, timeouts and
  backoff lengths) are rationals here.
\<close>

record world =
  clock :: rat
  sent :: "(rat \<times> request) list"

definition transport :: "env \<Rightarrow> request \<Rightarrow> world \<Rightarrow> (int \<times> string) \<times> world" where
  "transport E rq w =
     (let r = http E (length (sent w)) rq
      in ((status r, resp_text r),
          w\<lparr>clock := clock w + (1 + of_nat (elapsed r)) / 1000,
            sent := sent w @ [(clock w, rq)]\<rparr>))"

text \<open>\<^verbatim>\<open>time.sleep\<close> raises \<^verbatim>\<open>ValueError\<close> on a negative length.\<close>

definition sleep :: "rat \<Rightarrow> world \<Rightarrow> error + world" where
  "sleep d w = (if d < 0 then Inl ValueError else Inr (w\<lparr>clock := clock w + d\<rparr>))"

definition get :: "env \<Rightarrow> string \<Rightarrow> world \<Rightarrow> (int \<times> string) \<times> world" where
  "get E url w = transport E (GET url) w"

definition post :: "env \<Rightarrow> string \<Rightarrow> body \<Rightarrow> string \<Rightarrow> world \<Rightarrow> (int \<times> string) \<times> world" where
  "post E url payload_bytes content_type w = transport E (POST url payload_bytes content_type) w"

definition jpost :: "env \<Rightarrow> string \<Rightarrow> json \<Rightarrow> world \<Rightarrow> (int \<times> string) \<times> world" where
  "jpost E url obj w = post E url (Dumped obj) ''application/json'' w"

text \<open>Decimal digits of an integer, as \<^verbatim>\<open>f"{code}"\<close> prints them.\<close>

function str_nat :: "nat \<Rightarrow> string" where
  "str_nat n =
     (if n < 10 then [char_of (48 + n)]
      else str_nat (n div 10) @ [char_of (48 + n mod 10)])"
  by pat_completeness auto
termination
  by (relation "measure id") auto

definition str_int :: "int \<Rightarrow> string" where
  "str_int i = (if i < 0 then CHR ''-'' # str_nat (nat (- i)) else str_nat (nat i))"

definition transient_codes :: "int set" where
  "transient_codes = {404, 409, 429, 500, 502, 503, 504}"

section \<open>Readiness\<close>

text \<open>The four requests of one iteration of \<^verbatim>\<open>wait_for_comfy_ready\<close>.\<close>

definition probe :: "env \<Rightarrow> string \<Rightarrow> world \<Rightarrow> (int \<times> int \<times> int \<times> int) \<times> world" where
  "probe E api_base w =
     (case get E (api_base @ ''/queue'') w of ((code_q, _), w1) \<Rightarrow>
     (case get E (api_base @ ''/customnode/getlist?mode=cache&skip_update=true'') w1 of
        ((code_cn, _), w2) \<Rightarrow>
     (case get E (api_base @ ''/externalmodel/getlist?mode=cache&skip_update=true'') w2 of
        ((code_em, _), w3) \<Rightarrow>
     (case get E (api_base @ ''/model/getlist?mode=cache&skip_update=true'') w3 of
        ((code_m, _), w4) \<Rightarrow>
      ((code_q, code_cn, code_em, code_m), w4)))))"

definition ok :: "int \<Rightarrow> bool" where
  "ok c = (c = 200)"

function wait_for_comfy_ready_loop ::
  "env \<Rightarrow> string \<Rightarrow> rat \<Rightarrow> rat \<Rightarrow> rat \<Rightarrow> world \<Rightarrow> (error + bool) \<times> world" where
  "wait_for_comfy_ready_loop E api_base start timeout_s backoff w =
     (if clock w - start < timeout_s then
        (case probe E api_base w of ((code_q, code_cn, code_em, code_m), w4) \<Rightarrow>
           if ok code_q \<and> (ok code_cn \<or> ok code_em \<or> ok code_m) then (Inr True, w4)
           else (case sleep backoff w4 of
                   Inl e \<Rightarrow> (Inl e, w4)
                 | Inr w5 \<Rightarrow>
                     wait_for_comfy_ready_loop E api_base start timeout_s
                       (min (backoff * (17 / 10)) 10) w5))
      else (Inr False, w))"
  by pat_completeness auto
termination
proof (relation "measure (\<lambda>(E, api_base, start, timeout_s, backoff, w).
                   nat \<lceil>(timeout_s - (clock w - start)) * 1000\<rceil>)", goal_cases)
  case 1
  show ?case by simp
next
  case (2 E api_base start timeout_s backoff w x1 x2 code_q y1 code_cn y2 code_em code_m w5)
  from 2(2,3,4,5) have p: "probe E api_base w = ((code_q, code_cn, code_em, code_m), x2)"
    by simp
  then have c4: "clock w + 1 / 1000 \<le> clock x2"
    by (simp add: probe_def get_def transport_def Let_def split: prod.splits)
       (auto simp: field_simps)
  from 2(7) have c5: "clock x2 \<le> clock w5"
    by (auto simp: sleep_def split: if_splits)
  let ?a = "(timeout_s - (clock w5 - start)) * 1000"
  let ?b = "(timeout_s - (clock w - start)) * 1000"
  from c4 c5 have "?a \<le> ?b - 1" by simp
  then have "\<lceil>?a\<rceil> \<le> \<lceil>?b - 1\<rceil>" by (rule ceiling_mono)
  moreover from 2(1) have "0 < ?b" by simp
  then have "0 < \<lceil>?b\<rceil>" by simp
  ultimately have "nat \<lceil>?a\<rceil> < nat \<lceil>?b\<rceil>" by simp
  then show ?case by simp
qed

definition wait_for_comfy_ready ::
  "env \<Rightarrow> string \<Rightarrow> rat \<Rightarrow> rat \<Rightarrow> world \<Rightarrow> (error + bool) \<times> world" where
  "wait_for_comfy_ready E api_base initial_sleep timeout_s w =
     (case (if initial_sleep > 0 then sleep initial_sleep w else Inr w) of
        Inl e \<Rightarrow> (Inl e, w)
      | Inr w0 \<Rightarrow> wait_for_comfy_ready_loop E api_base (clock w0) timeout_s (3 / 2) w0)"


section \<open>Catalog of models\<close>



section \<open>Queue helpers\<close>

definition queue_reset :: "env \<Rightarrow> string \<Rightarrow> world \<Rightarrow> world" where
  "queue_reset E api_base w = snd (get E (api_base @ ''/manager/queue/reset'') w)"

definition queue_start :: "env \<Rightarrow> string \<Rightarrow> world \<Rightarrow> world" where
  "queue_start E api_base w = snd (get E (api_base @ ''/manager/queue/start'') w)"

text \<open>
  The \<^verbatim>\<open>try\<close> block of \<^verbatim>\<open>wait_queue_idle\<close>: whether a body answered with status 200
  says that the queue is idle. Every exception inside the block counts as not idle.
\<close>

definition queue_status_idle :: "env \<Rightarrow> string \<Rightarrow> bool" where
  "queue_status_idle E body =
     (case json_loads E body of
        None \<Rightarrow> False
      | Some s \<Rightarrow>
          (case s of
             JObj d \<Rightarrow>
               (if \<not> py_truth (py_get d ''is_processing'')
                then (case py_int E (py_get_default d ''in_progress_count'' (JInt 0)) of
                        None \<Rightarrow> False
                      | Some n \<Rightarrow> n = 0)
                else False)
           | _ \<Rightarrow> False))"

function wait_queue_idle_loop ::
  "env \<Rightarrow> string \<Rightarrow> rat \<Rightarrow> rat \<Rightarrow> world \<Rightarrow> (error + bool) \<times> world" where
  "wait_queue_idle_loop E api_base deadline poll_s w =
     (if clock w < deadline then
        (case get E (api_base @ ''/manager/queue/status'') w of ((code, body), w1) \<Rightarrow>
           if code = 200 \<and> queue_status_idle E body then (Inr True, w1)
           else (case sleep poll_s w1 of
                   Inl e \<Rightarrow> (Inl e, w1)
                 | Inr w2 \<Rightarrow> wait_queue_idle_loop E api_base deadline poll_s w2))
      else (Inr False, w))"
  by pat_completeness auto
termination
proof (relation "measure (\<lambda>(E, api_base, deadline, poll_s, w).
                   nat \<lceil>(deadline - clock w) * 1000\<rceil>)", goal_cases)
  case 1
  show ?case by simp
next
  case (2 E api_base deadline poll_s w x1 w1 code body w2)
  from 2(2) have c1: "clock w + 1 / 1000 \<le> clock w1"
    by (auto simp: get_def transport_def Let_def field_simps)
  from 2(5) have c2: "clock w1 \<le> clock w2"
    by (auto simp: sleep_def split: if_splits)
  let ?a = "(deadline - clock w2) * 1000"
  let ?b = "(deadline - clock w) * 1000"
  from c1 c2 have "?a \<le> ?b - 1" by simp
  then have "\<lceil>?a\<rceil> \<le> \<lceil>?b - 1\<rceil>" by (rule ceiling_mono)
  moreover from 2(1) have "0 < ?b" by simp
  then have "0 < \<lceil>?b\<rceil>" by simp
  ultimately have "nat \<lceil>?a\<rceil> < nat \<lceil>?b\<rceil>" by simp
  then show ?case by simp
qed

definition wait_queue_idle ::
  "env \<Rightarrow> string \<Rightarrow> rat \<Rightarrow> rat \<Rightarrow> world \<Rightarrow> (error + bool) \<times> world" where
  "wait_queue_idle E api_base timeout_s poll_s w =
     wait_queue_idle_loop E api_base (clock w + timeout_s) poll_s w"

section \<open>Installing whitelisted nodes and models\<close>

text \<open>
  Step 4 of \<^verbatim>\<open>install_node_by_query\<close>: reset the queue, enqueue with retries, start, wait.
  The payload is the catalog entry that the steps before it have assembled and encoded.
\<close>

function install_node_enqueue_loop ::
  "env \<Rightarrow> string \<Rightarrow> body \<Rightarrow> nat \<Rightarrow> rat \<Rightarrow> world \<Rightarrow> (error + bool) \<times> world" where
  "install_node_enqueue_loop E api_base payload attempts backoff w =
     (if attempts < 6 then
        (case post E (api_base @ ''/manager/queue/install'') payload
                ''text/plain;charset=UTF-8'' w of ((code, body), w1) \<Rightarrow>
           if code = 200 then wait_queue_idle E api_base 180 (3 / 2) (queue_start E api_base w1)
           else if code \<in> transient_codes then
             (case sleep backoff w1 of
                Inl e \<Rightarrow> (Inl e, w1)
              | Inr w2 \<Rightarrow>
                  install_node_enqueue_loop E api_base payload (attempts + 1)
                    (min (backoff * (17 / 10)) 10) w2)
           else (Inl (RuntimeError (''[nodes] enqueue failed '' @ str_int code @ '': '' @ body)),
                 w1))
      else (Inr False, w))"
  by pat_completeness auto
termination
  by (relation "measure (\<lambda>(E, api_base, payload, attempts, backoff, w). 6 - attempts)") auto

definition install_node_enqueue ::
  "env \<Rightarrow> string \<Rightarrow> body \<Rightarrow> world \<Rightarrow> (error + bool) \<times> world" where
  "install_node_enqueue E api_base payload w =
     install_node_enqueue_loop E api_base payload 0 (3 / 2) (queue_reset E api_base w)"







section \<open>Reboot\<close>

text \<open>
  The request phase of \<^verbatim>\<open>reboot_comfy_cycle\<close>. The result is the pair of
  \<^verbatim>\<open>reboot_accepted\<close> and \<^verbatim>\<open>last_err\<close> with which the loop ends.
\<close>

function reboot_request_loop ::
  "env \<Rightarrow> string \<Rightarrow> nat \<Rightarrow> rat \<Rightarrow> bool \<Rightarrow> string option \<Rightarrow> world
     \<Rightarrow> (error + bool \<times> string option) \<times> world" where
  "reboot_request_loop E api_base attempts backoff reboot_accepted last_err w =
     (if attempts < 8 \<and> \<not> reboot_accepted then
        (case get E (api_base @ ''/manager/reboot'') w of ((code, body), w1) \<Rightarrow>
           if code = 200 then (Inr (True, last_err), w1)
           else if code \<in> {502, 503, 504}
           then (Inr (True, Some (str_int code @ '': '' @ take 160 body)), w1)
           else (case sleep backoff w1 of
                   Inl e \<Rightarrow> (Inl e, w1)
                 | Inr w2 \<Rightarrow>
                     reboot_request_loop E api_base (attempts + 1)
                       (min (backoff * (17 / 10)) 10) reboot_accepted
                       (Some (str_int code @ '': '' @ take 160 body)) w2))
      else (Inr (reboot_accepted, last_err), w))"
  by pat_completeness auto
termination
  by (relation "measure (\<lambda>(E, api_base, attempts, backoff, reboot_accepted, last_err, w).
                   8 - attempts)") auto

text \<open>Phase A: wait for one answer of \<^verbatim>\<open>/queue\<close> other than 200.\<close>

function reboot_phase_a_loop ::
  "env \<Rightarrow> string \<Rightarrow> rat \<Rightarrow> rat \<Rightarrow> world \<Rightarrow> (error + bool) \<times> world" where
  "reboot_phase_a_loop E api_base phaseA_deadline backoff w =
     (if clock w < phaseA_deadline then
        (case get E (api_base @ ''/queue'') w of ((code, _), w1) \<Rightarrow>
           if code \<noteq> 200 then (Inr True, w1)
           else (case sleep backoff w1 of
                   Inl e \<Rightarrow> (Inl e, w1)
                 | Inr w2 \<Rightarrow>
                     reboot_phase_a_loop E api_base phaseA_deadline
                       (min (backoff * (14 / 10)) 4) w2))
      else (Inr False, w))"
  by pat_completeness auto
termination
proof (relation "measure (\<lambda>(E, api_base, phaseA_deadline, backoff, w).
                   nat \<lceil>(phaseA_deadline - clock w) * 1000\<rceil>)", goal_cases)
  case 1
  show ?case by simp
next
  case (2 E api_base deadline backoff w x1 w1 code body w2)
  from 2(2) have c1: "clock w + 1 / 1000 \<le> clock w1"
    by (auto simp: get_def transport_def Let_def field_simps)
  from 2(5) have c2: "clock w1 \<le> clock w2"
    by (auto simp: sleep_def split: if_splits)
  let ?a = "(deadline - clock w2) * 1000"
  let ?b = "(deadline - clock w) * 1000"
  from c1 c2 have "?a \<le> ?b - 1" by simp
  then have "\<lceil>?a\<rceil> \<le> \<lceil>?b - 1\<rceil>" by (rule ceiling_mono)
  moreover from 2(1) have "0 < ?b" by simp
  then have "0 < \<lceil>?b\<rceil>" by simp
  ultimately have "nat \<lceil>?a\<rceil> < nat \<lceil>?b\<rceil>" by simp
  then show ?case by simp
qed

text \<open>
  What follows the request phase once the reboot counts as accepted: phase A, phase B
  and the grace period.
\<close>

definition reboot_after_request ::
  "env \<Rightarrow> string \<Rightarrow> rat \<Rightarrow> rat \<Rightarrow> world \<Rightarrow> (error + unit) \<times> world" where
  "reboot_after_request E api_base extra_wait_after_up_s total_timeout_s w =
     (case reboot_phase_a_loop E api_base
             (clock w + min 120 (of_int \<lfloor>total_timeout_s / 3\<rfloor>)) (12 / 10) w of
        (Inl e, w1) \<Rightarrow> (Inl e, w1)
      | (Inr saw_down, w1) \<Rightarrow>
          (case wait_for_comfy_ready E api_base 0 (max 180 (total_timeout_s - 60)) w1 of
             (Inl e, w2) \<Rightarrow> (Inl e, w2)
           | (Inr came_back, w2) \<Rightarrow>
               if \<not> came_back
               then (Inl (RuntimeError
                      ''[reboot] API did not become healthy again within timeout''), w2)
               else (case sleep extra_wait_after_up_s w2 of
                       Inl e \<Rightarrow> (Inl e, w2)
                     | Inr w3 \<Rightarrow> (Inr (), w3))))"

definition reboot_comfy_cycle ::
  "env \<Rightarrow> string \<Rightarrow> rat \<Rightarrow> rat \<Rightarrow> world \<Rightarrow> (error + unit) \<times> world" where
  "reboot_comfy_cycle E api_base extra_wait_after_up_s total_timeout_s w =
     (case reboot_request_loop E api_base 0 (3 / 2) False None w of
        (Inl e, w1) \<Rightarrow> (Inl e, w1)
      | (Inr (reboot_accepted, last_err), w1) \<Rightarrow>
          if \<not> reboot_accepted
          then (Inl (RuntimeError
                  (''[reboot] could not initiate reboot: ''
                   @ (case last_err of None \<Rightarrow> ''None'' | Some s \<Rightarrow> s))), w1)
          else reboot_after_request E api_base extra_wait_after_up_s total_timeout_s w1)"

section \<open>Models that are not whitelisted\<close>

definition install_url_paths :: "string list" where
  "install_url_paths =
     [''/externalmodel/install_url'', ''/model/install_url'',
      ''/externalmodel/add_by_url'', ''/model/add_by_url'']"

text \<open>\<^verbatim>\<open>spec.get(k, "").strip()\<close>: a value that is not a string has no \<^verbatim>\<open>strip\<close>.\<close>

definition spec_field :: "pydict \<Rightarrow> string \<Rightarrow> error + string" where
  "spec_field spec k =
     (case py_get_default spec k (JStr []) of
        JStr s \<Rightarrow> Inr (py_strip s)
      | _ \<Rightarrow> Inl AttributeError)"

text \<open>\<^verbatim>\<open>(spec.get(k, "") or "").strip()\<close>.\<close>

definition spec_field_or_empty :: "pydict \<Rightarrow> string \<Rightarrow> error + string" where
  "spec_field_or_empty spec k =
     (case py_or (py_get_default spec k (JStr [])) (JStr []) of
        JStr s \<Rightarrow> Inr (py_strip s)
      | _ \<Rightarrow> Inl AttributeError)"

text \<open>The inner loop of \<^verbatim>\<open>install_nonwhitelisted_model_via_manager\<close>, over the payloads;
  \<open>None\<close> when the loop ends without a \<^verbatim>\<open>return\<close>.\<close>

fun try_candidates ::
  "env \<Rightarrow> string \<Rightarrow> string \<Rightarrow> json list \<Rightarrow> world \<Rightarrow> (error + bool) option \<times> world" where
  "try_candidates E api_base path [] w = (None, w)"
| "try_candidates E api_base path (payload # rest) w =
     (case jpost E (api_base @ path) payload w of ((code, body), w1) \<Rightarrow>
        if code = 200
        then (case wait_queue_idle E api_base 900 (3 / 2) (queue_start E api_base w1) of
                (r, w3) \<Rightarrow> (Some r, w3))
        else try_candidates E api_base path rest w1)"

text \<open>The outer loop, over the paths.\<close>

fun try_paths ::
  "env \<Rightarrow> string \<Rightarrow> string list \<Rightarrow> json list \<Rightarrow> world \<Rightarrow> (error + bool) option \<times> world" where
  "try_paths E api_base [] candidates w = (None, w)"
| "try_paths E api_base (path # paths) candidates w =
     (case try_candidates E api_base path candidates w of
        (Some r, w1) \<Rightarrow> (Some r, w1)
      | (None, w1) \<Rightarrow> try_paths E api_base paths candidates w1)"

definition manager_candidates :: "string \<Rightarrow> string \<Rightarrow> string \<Rightarrow> string \<Rightarrow> json list" where
  "manager_candidates url filename subfolder sha256 =
     [JObj [(''url'', JStr url), (''filename'', JStr filename),
            (''subfolder'', JStr subfolder), (''sha256'', JStr sha256)],
      JObj [(''url'', JStr url), (''filename'', JStr filename),
            (''save_path'', JStr (''/app/ComfyUI/models/'' @ subfolder)),
            (''sha256'', JStr sha256)]]"

definition install_nonwhitelisted_model_via_manager ::
  "env \<Rightarrow> string \<Rightarrow> pydict \<Rightarrow> world \<Rightarrow> (error + bool) \<times> world" where
  "install_nonwhitelisted_model_via_manager E api_base spec w =
     (case spec_field spec ''url'' of Inl e \<Rightarrow> (Inl e, w) | Inr url \<Rightarrow>
     (case spec_field spec ''filename'' of Inl e \<Rightarrow> (Inl e, w) | Inr filename \<Rightarrow>
     (case spec_field spec ''subfolder'' of Inl e \<Rightarrow> (Inl e, w) | Inr subfolder \<Rightarrow>
     (case spec_field spec ''sha256'' of Inl e \<Rightarrow> (Inl e, w) | Inr sha256 \<Rightarrow>
        if url = [] \<or> filename = [] \<or> subfolder = []
        then (Inl (RuntimeError (''[nonwhite] url/filename/subfolder required: ''
                                 @ str_other E (JObj spec))), w)
        else (case try_paths E api_base install_url_paths
                     (manager_candidates url filename subfolder sha256)
                     (queue_reset E api_base w) of
                (Some r, w2) \<Rightarrow> (r, w2)
              | (None, w2) \<Rightarrow> (Inr False, w2))))))"

subsection \<open>Workflow helpers\<close>

text \<open>The loop of \<^verbatim>\<open>_prompt_post_try\<close>; \<open>Inl\<close> is the pair \<^verbatim>\<open>(False, text)\<close>, \<open>Inr\<close> the
  pair \<^verbatim>\<open>(True, json)\<close>.\<close>

fun prompt_post_loop ::
  "env \<Rightarrow> string list \<Rightarrow> body \<Rightarrow> string \<Rightarrow> string \<Rightarrow> world \<Rightarrow> (string + json) \<times> world" where
  "prompt_post_loop E [] body_bytes content_type last_text w = (Inl last_text, w)"
| "prompt_post_loop E (base # bases) body_bytes content_type last_text w =
     (case post E (base @ ''/prompt'') body_bytes content_type w of ((code, txt), w1) \<Rightarrow>
        if code = 200
        then (Inr (case json_loads E txt of
                     Some j \<Rightarrow> j
                   | None \<Rightarrow> JObj [(''raw'', JStr txt)]), w1)
        else prompt_post_loop E bases body_bytes content_type txt w1)"

definition prompt_post_try ::
  "env \<Rightarrow> string \<Rightarrow> string \<Rightarrow> body \<Rightarrow> string \<Rightarrow> world \<Rightarrow> (string + json) \<times> world" where
  "prompt_post_try E api_base root_base body_bytes content_type w =
     prompt_post_loop E [api_base, root_base] body_bytes content_type [] w"

fun first_string_under :: "pydict \<Rightarrow> string list \<Rightarrow> string option" where
  "first_string_under d [] = None"
| "first_string_under d (k # ks) =
     (case py_get d k of
        JStr v \<Rightarrow> (if v \<noteq> [] then Some v else first_string_under d ks)
      | _ \<Rightarrow> first_string_under d ks)"

definition extract_prompt_id :: "json \<Rightarrow> string option" where
  "extract_prompt_id resp_json =
     (case resp_json of
        JObj d \<Rightarrow>
          (case first_string_under d [''prompt_id'', ''promptId'', ''id''] of
             Some v \<Rightarrow> Some v
           | None \<Rightarrow>
               (case py_get d ''data'' of
                  JObj dd \<Rightarrow> first_string_under dd [''prompt_id'', ''promptId'', ''id'']
                | _ \<Rightarrow> None))
      | _ \<Rightarrow> None)"

definition history_fetch ::
  "env \<Rightarrow> string \<Rightarrow> string \<Rightarrow> world \<Rightarrow> (int \<times> pydict option) \<times> world" where
  "history_fetch E api_base prompt_id w =
     (case get E (api_base @ ''/history/'' @ prompt_id) w of ((code, body), w1) \<Rightarrow>
        if code \<noteq> 200 then ((code, None), w1)
        else (case json_loads E body of
                Some (JObj obj) \<Rightarrow>
                  (case map_of obj prompt_id of
                     Some (JObj h) \<Rightarrow> ((200, Some h), w1)
                   | _ \<Rightarrow>
                       if map_of obj ''status'' \<noteq> None \<or> map_of obj ''outputs'' \<noteq> None
                       then ((200, Some obj), w1)
                       else ((200, None), w1))
              | _ \<Rightarrow> ((200, None), w1)))"

definition is_workflow_done :: "env \<Rightarrow> pydict \<Rightarrow> bool \<times> string option" where
  "is_workflow_done E hist_obj =
     (let by_outputs =
            (if py_truth (py_get hist_obj ''outputs'') then (True, Some ''success'')
             else (False, None))
      in case py_or (py_get hist_obj ''status'') (JObj []) of
           JObj st \<Rightarrow>
             if truthy E (py_get st ''completed'') then (True, Some ''success'')
             else (let sstr = normalize E
                                (py_or (py_or (py_or (py_get st ''status'')
                                                 (py_get st ''status_str''))
                                          (py_get st ''state''))
                                   (JStr []))
                   in if sstr \<in> set [''success'', ''complete'', ''completed'', ''done'']
                      then (True, Some ''success'')
                      else if sstr \<in> set [''error'', ''failed'', ''fail'', ''exception'']
                              \<or> truthy E (py_get st ''error'')
                      then (True, Some ''error'')
                      else by_outputs)
         | _ \<Rightarrow> by_outputs)"

text \<open>What one poll of \<^verbatim>\<open>wait_workflow_complete\<close> returns, \<open>None\<close> when it goes on polling.\<close>

definition workflow_verdict :: "env \<Rightarrow> int \<Rightarrow> pydict option \<Rightarrow> bool option" where
  "workflow_verdict E code hist =
     (if code = 200 then
        (case hist of
           None \<Rightarrow> None
         | Some h \<Rightarrow>
             (case is_workflow_done E h of
                (done, result) \<Rightarrow> if done then Some (result \<noteq> Some ''error'') else None))
      else None)"

function wait_workflow_complete_loop ::
  "env \<Rightarrow> string \<Rightarrow> string \<Rightarrow> rat \<Rightarrow> rat \<Rightarrow> world \<Rightarrow> (error + bool) \<times> world" where
  "wait_workflow_complete_loop E api_base prompt_id deadline poll_s w =
     (if clock w < deadline then
        (case history_fetch E api_base prompt_id w of ((code, hist), w1) \<Rightarrow>
           (case workflow_verdict E code hist of
              Some r \<Rightarrow> (Inr r, w1)
            | None \<Rightarrow>
                (case sleep poll_s w1 of
                   Inl e \<Rightarrow> (Inl e, w1)
                 | Inr w2 \<Rightarrow>
                     wait_workflow_complete_loop E api_base prompt_id deadline poll_s w2)))
      else (Inr False, w))"
  by pat_completeness auto
termination
proof (relation "measure (\<lambda>(E, api_base, prompt_id, deadline, poll_s, w).
                   nat \<lceil>(deadline - clock w) * 1000\<rceil>)", goal_cases)
  case 1
  show ?case by simp
next
  case (2 E api_base prompt_id deadline poll_s w x1 w1 code hist w2)
  from 2(2) have c1: "clock w + 1 / 1000 \<le> clock w1"
    by (auto simp: history_fetch_def get_def transport_def Let_def field_simps
             split: if_splits option.splits json.splits)
  from 2(5) have c2: "clock w1 \<le> clock w2"
    by (auto simp: sleep_def split: if_splits)
  let ?a = "(deadline - clock w2) * 1000"
  let ?b = "(deadline - clock w) * 1000"
  from c1 c2 have "?a \<le> ?b - 1" by simp
  then have "\<lceil>?a\<rceil> \<le> \<lceil>?b - 1\<rceil>" by (rule ceiling_mono)
  moreover from 2(1) have "0 < ?b" by simp
  then have "0 < \<lceil>?b\<rceil>" by simp
  ultimately have "nat \<lceil>?a\<rceil> < nat \<lceil>?b\<rceil>" by simp
  then show ?case by simp
qed

definition wait_workflow_complete ::
  "env \<Rightarrow> string \<Rightarrow> string \<Rightarrow> rat \<Rightarrow> rat \<Rightarrow> world \<Rightarrow> (error + bool) \<times> world" where
  "wait_workflow_complete E api_base prompt_id timeout_s poll_s w =
     wait_workflow_complete_loop E api_base prompt_id (clock w + timeout_s) poll_s w"

subsection \<open>The downloader workflow and the fallback\<close>

definition downloader_payload :: "string \<Rightarrow> string \<Rightarrow> string \<Rightarrow> string \<Rightarrow> json" where
  "downloader_payload url filename subfolder sha256 =
     JObj [(''prompt'',
            JObj [(''20'',
                   JObj [(''inputs'',
                          JObj [(''url'', JStr url), (''subfolder'', JStr subfolder),
                                (''filename'', JStr filename), (''overwrite'', JBool True),
                                (''sha256'', JStr sha256), (''timeout_s'', JInt 120),
                                (''retries'', JInt 3),
                                (''user_agent'', JStr ''ComfyUI-DaimalyadModelDownloader/1.0'')]),
                         (''class_type'', JStr ''DaimalyadModelDownloader''),
                         (''_meta'', JObj [(''title'', JStr ''Model Downloader by DaimAlYad'')])])]),
           (''client_id'', JStr ''bootstrap-nonwhite-installer'')]"

definition run_downloader_workflow ::
  "env \<Rightarrow> string \<Rightarrow> string \<Rightarrow> pydict \<Rightarrow> world \<Rightarrow> (error + bool) \<times> world" where
  "run_downloader_workflow E api_base root_base spec w =
     (case spec_field spec ''url'' of Inl e \<Rightarrow> (Inl e, w) | Inr url \<Rightarrow>
     (case spec_field spec ''filename'' of Inl e \<Rightarrow> (Inl e, w) | Inr filename \<Rightarrow>
     (case spec_field spec ''subfolder'' of Inl e \<Rightarrow> (Inl e, w) | Inr subfolder \<Rightarrow>
     (case spec_field_or_empty spec ''sha256'' of Inl e \<Rightarrow> (Inl e, w) | Inr sha256 \<Rightarrow>
        if url = [] \<or> filename = [] \<or> subfolder = []
        then (Inl (RuntimeError ''[downloader] url/filename/subfolder required''), w)
        else (case prompt_post_try E api_base root_base
                     (Dumped (downloader_payload url filename subfolder sha256))
                     ''application/json'' w of
                (Inl txt, w1) \<Rightarrow>
                  (Inl (RuntimeError (''[downloader] /prompt POST failed: '' @ txt)), w1)
              | (Inr resp, w1) \<Rightarrow>
                  (case extract_prompt_id resp of
                     None \<Rightarrow> wait_queue_idle E api_base 900 (3 / 2) (queue_start E api_base w1)
                   | Some prompt_id \<Rightarrow>
                       (case wait_workflow_complete E api_base prompt_id 1800 (3 / 2)
                               (queue_start E api_base w1) of
                          (Inl e, w2) \<Rightarrow> (Inl e, w2)
                        | (Inr ok_run, w2) \<Rightarrow>
                            (case wait_queue_idle E api_base 300 (3 / 2) w2 of
                               (Inl e, w3) \<Rightarrow> (Inl e, w3)
                             | (Inr drained, w3) \<Rightarrow> (Inr (ok_run \<and> drained), w3)))))))))"

definition install_nonwhitelisted_model ::
  "env \<Rightarrow> string \<Rightarrow> string \<Rightarrow> pydict \<Rightarrow> world \<Rightarrow> (error + bool) \<times> world" where
  "install_nonwhitelisted_model E api_base root_base spec w =
     (case install_nonwhitelisted_model_via_manager E api_base spec w of
        (Inl e, w1) \<Rightarrow> (Inl e, w1)
      | (Inr via_manager, w1) \<Rightarrow>
          if via_manager then (Inr True, w1)
          else run_downloader_workflow E api_base root_base spec w1)"

section \<open>Vocabulary of the properties and sample inputs\<close>

definition node_exact :: "env \<Rightarrow> string \<Rightarrow> pydict \<Rightarrow> bool" where
  "node_exact E q m \<longleftrightarrow>
     normalize E (py_get m ''id'') = q \<or> normalize E (py_get m ''title'') = q"

definition sample_env :: env where
  "sample_env =
     \<lparr>http = (\<lambda>n rq. \<lparr>status = 200, resp_text = [], elapsed = 0\<rparr>),
      json_loads = (\<lambda>s. None), str_other = (\<lambda>v. []), int_of_str = (\<lambda>s. None)\<rparr>"

definition sample_node_exact :: pydict where
  "sample_node_exact = [(''id'', JStr ''y''), (''title'', JStr ''X''), (''state'', JStr ''enabled'')]"

definition sample_nodes :: "pydict list" where
  "sample_nodes =
     [[(''id'', JStr ''x-pack''), (''title'', JStr ''X Pack''), (''repository'', JStr ''x'')],
      sample_node_exact]"

definition sample_model_flux :: pydict where
  "sample_model_flux =
     [(''filename'', JStr ''flux1-dev-fp8.safetensors''),
      (''name'', JStr ''Comfy Org/FLUX.1 [dev] Checkpoint model (fp8)'')]"

definition sample_model_flux_variant :: pydict where
  "sample_model_flux_variant =
     [(''filename'', JStr ''flux1-dev-fp8.safetensors''),
      (''name'', JStr ''Comfy Org/FLUX.1 [dev] Checkpoint model (fp8), pruned'')]"

definition flux_query :: string where
  "flux_query = ''Comfy Org/FLUX.1 [dev] Checkpoint model (fp8)''"

text \<open>The answer that a request would get if it were the next one sent in world \<open>w\<close>.\<close>

definition next_answer :: "env \<Rightarrow> world \<Rightarrow> request \<Rightarrow> response" where
  "next_answer E w rq = http E (length (sent w)) rq"

text \<open>A service that answers every request at once with status 200 and a body that
  \<^verbatim>\<open>json.loads\<close> reads as \<open>j\<close>.\<close>

definition steady_env :: "json \<Rightarrow> env" where
  "steady_env j =
     \<lparr>http = (\<lambda>n rq. \<lparr>status = 200, resp_text = ''body'', elapsed = 0\<rparr>),
      json_loads = (\<lambda>s. Some j), str_other = (\<lambda>v. []), int_of_str = (\<lambda>s. None)\<rparr>"

definition world0 :: world where
  "world0 = \<lparr>clock = 0, sent = []\<rparr>"

definition queue_idle_json :: json where
  "queue_idle_json = JObj [(''is_processing'', JBool False), (''in_progress_count'', JInt 0)]"

definition queue_busy_json :: json where
  "queue_busy_json = JObj [(''is_processing'', JBool False), (''in_progress_count'', JInt 2)]"

definition queue_processing_json :: json where
  "queue_processing_json = JObj [(''is_processing'', JBool True), (''in_progress_count'', JInt 0)]"

text \<open>The enqueue request of a node install, and the answer to attempt \<open>i\<close> (from 0) of
  \<open>install_node_enqueue\<close> started in world \<open>w\<close>: one request, the reset, goes before.\<close>

definition node_install_request :: "string \<Rightarrow> body \<Rightarrow> request" where
  "node_install_request api_base payload =
     POST (api_base @ ''/manager/queue/install'') payload ''text/plain;charset=UTF-8''"

definition enqueue_answer :: "env \<Rightarrow> world \<Rightarrow> request \<Rightarrow> nat \<Rightarrow> response" where
  "enqueue_answer E w rq i = http E (Suc (length (sent w)) + i) rq"

text \<open>A service that answers every GET at once with 200, and the POST sent as request
  number \<open>n\<close> (from 1) with the \<open>n\<close>-th code of a list, 500 beyond its end; every body
  reads as \<open>j\<close>.\<close>

definition scripted_env :: "int list \<Rightarrow> json \<Rightarrow> env" where
  "scripted_env codes j =
     \<lparr>http = (\<lambda>n rq. case rq of
                 GET u \<Rightarrow> \<lparr>status = 200, resp_text = ''body'', elapsed = 0\<rparr>
               | POST u b c \<Rightarrow>
                   \<lparr>status = (if n - 1 < length codes then codes ! (n - 1) else 500),
                    resp_text = ''busy'', elapsed = 0\<rparr>),
      json_loads = (\<lambda>s. Some j), str_other = (\<lambda>v. []), int_of_str = (\<lambda>s. None)\<rparr>"

text \<open>World \<open>w'\<close> comes after world \<open>w\<close>: its requests continue those of \<open>w\<close> and its clock
  is not behind.\<close>

definition later :: "world \<Rightarrow> world \<Rightarrow> bool" where
  "later w w' \<longleftrightarrow> (\<exists>xs. sent w' = sent w @ xs) \<and> clock w \<le> clock w'"

text \<open>The codes that the request phase of the reboot takes as an accepted reboot, and the
  answer to attempt \<open>i\<close> (from 0) of the cycle started in world \<open>w\<close>.\<close>

definition reboot_accepted_codes :: "int set" where
  "reboot_accepted_codes = {200, 502, 503, 504}"

definition reboot_request :: "string \<Rightarrow> request" where
  "reboot_request api_base = GET (api_base @ ''/manager/reboot'')"

definition reboot_answer :: "env \<Rightarrow> world \<Rightarrow> string \<Rightarrow> nat \<Rightarrow> response" where
  "reboot_answer E w api_base i = http E (length (sent w) + i) (reboot_request api_base)"

text \<open>A service that answers the request sent as number \<open>n\<close> (from 0), whatever it asks,
  with the \<open>n\<close>-th code of a list, and with 200 beyond its end.\<close>

definition numbered_env :: "int list \<Rightarrow> env" where
  "numbered_env codes =
     \<lparr>http = (\<lambda>n rq. \<lparr>status = (if n < length codes then codes ! n else 200),
                       resp_text = ''rebooting'', elapsed = 0\<rparr>),
      json_loads = (\<lambda>s. None), str_other = (\<lambda>v. []), int_of_str = (\<lambda>s. None)\<rparr>"



text \<open>The requests that \<^verbatim>\<open>install_nonwhitelisted_model_via_manager\<close> may send to the install
  endpoints, in the order of its two loops, and the request that opens the downloader
  workflow.\<close>

definition manager_request :: "string \<Rightarrow> string \<Rightarrow> json \<Rightarrow> request" where
  "manager_request api_base path obj = POST (api_base @ path) (Dumped obj) ''application/json''"

definition manager_requests :: "string \<Rightarrow> json list \<Rightarrow> request list" where
  "manager_requests api_base candidates =
     concat (map (\<lambda>path. map (manager_request api_base path) candidates) install_url_paths)"

definition prompt_request ::
  "string \<Rightarrow> string \<Rightarrow> string \<Rightarrow> string \<Rightarrow> string \<Rightarrow> request" where
  "prompt_request api_base url filename subfolder sha256 =
     POST (api_base @ ''/prompt'') (Dumped (downloader_payload url filename subfolder sha256))
       ''application/json''"

text \<open>The position of the first request of a list that is answered 200 when the requests
  are sent one after the other, the first of them as request number \<open>n\<close>.\<close>

fun first_accepted :: "env \<Rightarrow> nat \<Rightarrow> request list \<Rightarrow> nat option" where
  "first_accepted E n [] = None"
| "first_accepted E n (rq # rqs) =
     (if status (http E n rq) = 200 then Some 0
      else map_option Suc (first_accepted E (Suc n) rqs))"

text \<open>A service that accepts every POST at once, answers every GET with 200 after close to
  thirty seconds, and whose bodies all read as a queue that is processing.\<close>

definition accepting_busy_env :: env where
  "accepting_busy_env =
     \<lparr>http = (\<lambda>n rq. case rq of
                 GET u \<Rightarrow> \<lparr>status = 200, resp_text = ''busy'', elapsed = 29998\<rparr>
               | POST u b c \<Rightarrow> \<lparr>status = 200, resp_text = ''ok'', elapsed = 0\<rparr>),
      json_loads = (\<lambda>s. Some queue_processing_json), str_other = (\<lambda>v. []),
      int_of_str = (\<lambda>s. None)\<rparr>"

definition sample_spec :: pydict where
  "sample_spec =
     [(''url'', JStr ''https://example.org/Chroma-HD.safetensors''),
      (''filename'', JStr ''Chroma-HD.safetensors''),
      (''subfolder'', JStr ''diffusion_models''),
      (''sha256'', JStr [])]"

section \<open>Properties of the pickers\<close>

lemma starts_with_iff: "starts_with s p \<longleftrightarrow> (\<exists>ys. s = p @ ys)"
  by (induction s p rule: starts_with.induct) auto

lemma py_find_nonneg_iff: "0 \<le> py_find s sub \<longleftrightarrow> (\<exists>xs ys. s = xs @ sub @ ys)"
proof (induction s)
  case Nil
  then show ?case by simp
next
  case (Cons c cs)
  show ?case
  proof (cases "starts_with (c # cs) sub")
    case True
    then obtain ys where "c # cs = sub @ ys" by (auto simp: starts_with_iff)
    then have "c # cs = [] @ sub @ ys" by simp
    then have "\<exists>xs ys. c # cs = xs @ sub @ ys" by blast
    with True show ?thesis by simp
  next
    case False
    have "(\<exists>xs ys. c # cs = xs @ sub @ ys) \<longleftrightarrow> (\<exists>xs ys. cs = xs @ sub @ ys)"
    proof
      assume "\<exists>xs ys. c # cs = xs @ sub @ ys"
      then obtain xs ys where e: "c # cs = xs @ sub @ ys" by blast
      show "\<exists>xs ys. cs = xs @ sub @ ys"
      proof (cases xs)
        case Nil
        with e False show ?thesis by (auto simp: starts_with_iff)
      next
        case (Cons x xs')
        with e have "cs = xs' @ sub @ ys" by simp
        then show ?thesis by blast
      qed
    next
      assume "\<exists>xs ys. cs = xs @ sub @ ys"
      then obtain xs ys where "cs = xs @ sub @ ys" by blast
      then have "c # cs = (c # xs) @ sub @ ys" by simp
      then show "\<exists>xs ys. c # cs = xs @ sub @ ys" by blast
    qed
    moreover have "0 \<le> py_find (c # cs) sub \<longleftrightarrow> 0 \<le> py_find cs sub"
      using False by (simp add: Let_def)
    ultimately show ?thesis using Cons.IH by simp
  qed
qed

lemma pick_model_loop_sound:
  "pick_model_loop E q ms best bs = (b, s) \<Longrightarrow>
     bs \<le> s \<and> (\<forall>m\<in>set ms. model_score E q m \<le> s) \<and>
     ((b = best \<and> s = bs) \<or> (\<exists>m\<in>set ms. b = Some m \<and> model_score E q m = s \<and> bs < s))"
proof (induction ms arbitrary: best bs)
  case Nil
  then show ?case by simp
next
  case (Cons m ms)
  show ?case
  proof (cases "model_score E q m > bs")
    case True
    with Cons.prems have "pick_model_loop E q ms (Some m) (model_score E q m) = (b, s)"
      by simp
    from Cons.IH [OF this] True show ?thesis by auto
  next
    case False
    with Cons.prems have "pick_model_loop E q ms best bs = (b, s)"
      by simp
    from Cons.IH [OF this] False show ?thesis by auto
  qed
qed

lemma pick_node_loop_sound:
  "pick_node_loop E q ms best bs = (b, s) \<Longrightarrow>
     bs \<le> s \<and> (\<forall>m\<in>set ms. node_score E q m \<le> s) \<and>
     ((b = best \<and> s = bs) \<or> (\<exists>m\<in>set ms. b = Some m \<and> node_score E q m = s \<and> bs < s))"
proof (induction ms arbitrary: best bs)
  case Nil
  then show ?case by simp
next
  case (Cons m ms)
  show ?case
  proof (cases "node_score E q m > bs")
    case True
    with Cons.prems have "pick_node_loop E q ms (Some m) (node_score E q m) = (b, s)"
      by simp
    from Cons.IH [OF this] True show ?thesis by auto
  next
    case False
    with Cons.prems have "pick_node_loop E q ms best bs = (b, s)"
      by simp
    from Cons.IH [OF this] False show ?thesis by auto
  qed
qed

lemma node_score_exact: "node_exact E q m \<Longrightarrow> 10000 \<le> node_score E q m"
  by (simp add: node_score_def node_exact_def Let_def)

lemma node_score_inexact: "\<not> node_exact E q m \<Longrightarrow> node_score E q m \<le> 1050"
  by (simp add: node_score_def node_exact_def Let_def)

text \<open>
  C6. When the catalog holds an entry whose normalized id or title equals the normalized
  query, \<open>pick_node\<close> returns such an entry, with a score of at least 10000, whatever
  the other entries score; an entry without an exact match scores at most 1050
  (\<open>node_score_inexact\<close>).
\<close>

theorem pick_node_exact_match:
  assumes "m \<in> set catalog" and "node_exact E (normalize E (JStr query)) m"
  shows "\<exists>m'\<in>set catalog. fst (pick_node E catalog query) = Some m'
           \<and> node_exact E (normalize E (JStr query)) m'
           \<and> 10000 \<le> snd (pick_node E catalog query)"
proof -
  let ?q = "normalize E (JStr query)"
  obtain b s where r: "pick_node_loop E ?q catalog None (- 1) = (b, s)"
    by (cases "pick_node_loop E ?q catalog None (- 1)")
  note snd = pick_node_loop_sound [OF r]
  from snd assms(1) have "node_score E ?q m \<le> s" by blast
  with node_score_exact [OF assms(2)] have big: "10000 \<le> s" by simp
  with snd obtain m' where m': "m' \<in> set catalog" "b = Some m'" "node_score E ?q m' = s"
    by auto
  have "node_exact E ?q m'"
  proof (rule ccontr)
    assume "\<not> node_exact E ?q m'"
    from node_score_inexact [OF this] m'(3) big show False by simp
  qed
  with m' big r show ?thesis by (auto simp: pick_node_def)
qed

theorem pick_node_exact_match_witness:
  "sample_node_exact \<in> set sample_nodes
   \<and> node_exact sample_env (normalize sample_env (JStr ''x'')) sample_node_exact
   \<and> (\<exists>m'\<in>set sample_nodes. fst (pick_node sample_env sample_nodes ''x'') = Some m'
          \<and> node_exact sample_env (normalize sample_env (JStr ''x'')) m'
          \<and> 10000 \<le> snd (pick_node sample_env sample_nodes ''x''))"
proof -
  have h1: "sample_node_exact \<in> set sample_nodes"
    by (simp add: sample_nodes_def)
  have h2: "node_exact sample_env (normalize sample_env (JStr ''x'')) sample_node_exact"
    by code_simp
  from pick_node_exact_match [OF h1 h2] h1 h2 show ?thesis by simp
qed

text \<open>
  C7. The score that \<open>pick_model\<close> returns is the best score of the catalog (\<open>-1\<close> when
  nothing scores higher). Below 250 no entry is returned; from 250 on the entry returned
  is one of the catalog that has this best score.
\<close>

theorem pick_model_acceptance_floor:
  assumes "pick_model E catalog query = (r, s)"
  shows "s = Max (insert (- 1) (model_score E (normalize E (JStr query)) ` set catalog))
       \<and> (s < 250 \<longrightarrow> r = None)
       \<and> (250 \<le> s \<longrightarrow>
            (\<exists>m\<in>set catalog. r = Some m \<and> model_score E (normalize E (JStr query)) m = s))"
proof -
  let ?q = "normalize E (JStr query)"
  obtain b s' where l: "pick_model_loop E ?q catalog None (- 1) = (b, s')"
    by (cases "pick_model_loop E ?q catalog None (- 1)")
  with assms have s: "s' = s" and r: "r = (if 250 \<le> s then b else None)"
    by (auto simp: pick_model_def)
  note snd = pick_model_loop_sound [OF l, unfolded s]
  have "Max (insert (- 1) (model_score E ?q ` set catalog)) = s"
  proof (rule Max_eqI)
    show "finite (insert (- 1) (model_score E ?q ` set catalog))" by simp
    show "\<And>y. y \<in> insert (- 1) (model_score E ?q ` set catalog) \<Longrightarrow> y \<le> s"
      using snd by auto
    show "s \<in> insert (- 1) (model_score E ?q ` set catalog)"
      using snd by auto
  qed
  moreover have "s < 250 \<longrightarrow> r = None" using r by simp
  moreover have "250 \<le> s \<longrightarrow> (\<exists>m\<in>set catalog. r = Some m \<and> model_score E ?q m = s)"
    using snd r by auto
  ultimately show ?thesis by simp
qed

theorem pick_model_acceptance_floor_witness:
  "pick_model sample_env [sample_model_flux] flux_query = (Some sample_model_flux, 1000)
   \<and> (\<exists>m\<in>set [sample_model_flux]. Some sample_model_flux = Some m
          \<and> model_score sample_env (normalize sample_env (JStr flux_query)) m = 1000)
   \<and> pick_model sample_env [sample_model_flux] ''zzz'' = (None, 50)"
proof -
  have h1: "pick_model sample_env [sample_model_flux] flux_query = (Some sample_model_flux, 1000)"
    by code_simp
  have h2: "pick_model sample_env [sample_model_flux] ''zzz'' = (None, 50)"
    by code_simp
  from pick_model_acceptance_floor [OF h1] pick_model_acceptance_floor [OF h2] h1 h2
  show ?thesis by simp
qed

lemma model_score_disqualified:
  assumes "py_in ''.'' q"
    and "normalize E (py_get m ''filename'') \<noteq> q"
    and "\<not> py_in q (normalize E (py_get m ''filename''))"
    and "normalize E (py_get m ''name'') \<noteq> q"
  shows "model_score E q m = - 1"
  using assms by (simp add: model_score_def Let_def py_in_def)

text \<open>
  C3, as the code has it. A query whose normalized form contains a dot gets no match when
  no entry's normalized filename equals or contains it and, in addition, no entry's
  normalized name equals it: an exact match on the name scores 1000 before the
  disqualification is looked at.
\<close>

theorem pick_model_dot_disqualified:
  assumes "py_in ''.'' (normalize E (JStr query))"
    and "\<forall>m\<in>set catalog. normalize E (py_get m ''filename'') \<noteq> normalize E (JStr query)
           \<and> \<not> py_in (normalize E (JStr query)) (normalize E (py_get m ''filename''))"
    and "\<forall>m\<in>set catalog. normalize E (py_get m ''name'') \<noteq> normalize E (JStr query)"
  shows "pick_model E catalog query = (None, - 1)"
proof -
  let ?q = "normalize E (JStr query)"
  obtain b s where l: "pick_model_loop E ?q catalog None (- 1) = (b, s)"
    by (cases "pick_model_loop E ?q catalog None (- 1)")
  have all: "\<forall>m\<in>set catalog. model_score E ?q m = - 1"
    using assms model_score_disqualified by blast
  from pick_model_loop_sound [OF l] all have "s = - 1" by force
  with l show ?thesis by (simp add: pick_model_def)
qed

theorem pick_model_dot_disqualified_witness:
  "py_in ''.'' (normalize sample_env (JStr flux_query))
   \<and> pick_model sample_env [sample_model_flux_variant] flux_query = (None, - 1)"
proof -
  have h1: "py_in ''.'' (normalize sample_env (JStr flux_query))"
    by code_simp
  have h2: "\<forall>m\<in>set [sample_model_flux_variant].
              normalize sample_env (py_get m ''filename'') \<noteq> normalize sample_env (JStr flux_query)
              \<and> \<not> py_in (normalize sample_env (JStr flux_query))
                       (normalize sample_env (py_get m ''filename''))"
    by code_simp
  have h3: "\<forall>m\<in>set [sample_model_flux_variant].
              normalize sample_env (py_get m ''name'') \<noteq> normalize sample_env (JStr flux_query)"
    by code_simp
  from pick_model_dot_disqualified [OF h1 h2 h3] h1 show ?thesis by simp
qed

text \<open>
  The query is the display name of the one entry of the catalog. It contains a dot, and
  the filename of the entry neither equals nor contains it, yet the entry is returned with
  score 1000.
\<close>

theorem pick_model_dot_counterexample:
  "py_in ''.'' (normalize sample_env (JStr flux_query))
   \<and> normalize sample_env (py_get sample_model_flux ''filename'')
       \<noteq> normalize sample_env (JStr flux_query)
   \<and> \<not> py_in (normalize sample_env (JStr flux_query))
            (normalize sample_env (py_get sample_model_flux ''filename''))
   \<and> pick_model sample_env [sample_model_flux] flux_query = (Some sample_model_flux, 1000)"
  by code_simp

section \<open>Properties of the queue protocol\<close>

declare wait_queue_idle_loop.simps [simp del]

lemma get_result:
  "get E url w =
     ((status (next_answer E w (GET url)), resp_text (next_answer E w (GET url))),
      w\<lparr>clock := clock w + (1 + of_nat (elapsed (next_answer E w (GET url)))) / 1000,
        sent := sent w @ [(clock w, GET url)]\<rparr>)"
  by (simp add: get_def transport_def next_answer_def Let_def)

lemma get_clock: "clock w < clock (snd (get E url w))"
  by (simp add: get_result)

lemma get_sent: "sent (snd (get E url w)) = sent w @ [(clock w, GET url)]"
  by (simp add: get_result)

lemma sleep_ok: "0 \<le> d \<Longrightarrow> sleep d w = Inr (w\<lparr>clock := clock w + d\<rparr>)"
  by (simp add: sleep_def)

lemma wait_queue_idle_loop_late:
  "\<not> clock w < deadline \<Longrightarrow> wait_queue_idle_loop E api_base deadline poll_s w = (Inr False, w)"
  by (subst wait_queue_idle_loop.simps) simp

lemma wait_queue_idle_loop_idle:
  "clock w < deadline \<Longrightarrow> get E (api_base @ ''/manager/queue/status'') w = ((code, body), w1)
   \<Longrightarrow> code = 200 \<and> queue_status_idle E body
   \<Longrightarrow> wait_queue_idle_loop E api_base deadline poll_s w = (Inr True, w1)"
  by (subst wait_queue_idle_loop.simps) simp

lemma wait_queue_idle_loop_busy:
  "clock w < deadline \<Longrightarrow> get E (api_base @ ''/manager/queue/status'') w = ((code, body), w1)
   \<Longrightarrow> \<not> (code = 200 \<and> queue_status_idle E body) \<Longrightarrow> 0 \<le> poll_s
   \<Longrightarrow> wait_queue_idle_loop E api_base deadline poll_s w
       = wait_queue_idle_loop E api_base deadline poll_s (w1\<lparr>clock := clock w1 + poll_s\<rparr>)"
  by (subst wait_queue_idle_loop.simps) (auto simp: sleep_def)

lemma wait_queue_idle_loop_result:
  assumes "0 \<le> poll_s"
    and "wait_queue_idle_loop E api_base deadline poll_s w = (r, w')"
  shows "(r = Inr True \<or> r = Inr False)
       \<and> clock w \<le> clock w'
       \<and> (\<exists>xs. sent w' = sent w @ xs \<and> (r = Inr True \<longrightarrow> xs \<noteq> []))
       \<and> (r = Inr True \<longrightarrow>
            (\<exists>w0 body. clock w \<le> clock w0 \<and> clock w0 < deadline
               \<and> (\<exists>ys. sent w0 = sent w @ ys)
               \<and> get E (api_base @ ''/manager/queue/status'') w0 = ((200, body), w')
               \<and> queue_status_idle E body))"
  using assms
proof (induction E api_base deadline poll_s w arbitrary: r w' rule: wait_queue_idle_loop.induct)
  case (1 E api_base deadline poll_s w)
  let ?url = "api_base @ ''/manager/queue/status''"
  show ?case
  proof (cases "clock w < deadline")
    case False
    from wait_queue_idle_loop_late [OF False] "1.prems"(2) have "r = Inr False" "w' = w"
      by simp_all
    then show ?thesis by simp
  next
    case True
    obtain code body w1 where g: "get E ?url w = ((code, body), w1)"
      by (cases "get E ?url w") auto
    have c1: "clock w < clock w1" using get_clock [of w E ?url] g by simp
    have s1: "sent w1 = sent w @ [(clock w, GET ?url)]" using get_sent [of E ?url w] g by simp
    show ?thesis
    proof (cases "code = 200 \<and> queue_status_idle E body")
      case idle: True
      from wait_queue_idle_loop_idle [OF True g idle] "1.prems"(2)
      have res: "r = Inr True" "w' = w1"
        by simp_all
      have a: "r = Inr True \<or> r = Inr False" using res by simp
      have b: "clock w \<le> clock w'" using res c1 by simp
      have c: "\<exists>xs. sent w' = sent w @ xs \<and> (r = Inr True \<longrightarrow> xs \<noteq> [])"
        using res s1 by simp
      have "clock w \<le> clock w \<and> clock w < deadline \<and> (\<exists>ys. sent w = sent w @ ys)
            \<and> get E ?url w = ((200, body), w') \<and> queue_status_idle E body"
        using True g idle res by simp
      then have d: "\<exists>w0 body. clock w \<le> clock w0 \<and> clock w0 < deadline
               \<and> (\<exists>ys. sent w0 = sent w @ ys)
               \<and> get E ?url w0 = ((200, body), w') \<and> queue_status_idle E body"
        by (intro exI [of _ w] exI [of _ body])
      show ?thesis
      proof (intro conjI impI)
        show "r = Inr True \<or> r = Inr False" by (rule a)
        show "clock w \<le> clock w'" by (rule b)
        show "\<exists>xs. sent w' = sent w @ xs \<and> (r = Inr True \<longrightarrow> xs \<noteq> [])" by (rule c)
        show "\<exists>w0 body. clock w \<le> clock w0 \<and> clock w0 < deadline
               \<and> (\<exists>ys. sent w0 = sent w @ ys)
               \<and> get E ?url w0 = ((200, body), w') \<and> queue_status_idle E body"
          if "r = Inr True" using d that by simp
      qed
    next
      case busy: False
      let ?w2 = "w1\<lparr>clock := clock w1 + poll_s\<rparr>"
      have sl: "sleep poll_s w1 = Inr ?w2" using "1.prems"(1) by (rule sleep_ok)
      from wait_queue_idle_loop_busy [OF True g busy "1.prems"(1)] "1.prems"(2)
      have rec: "wait_queue_idle_loop E api_base deadline poll_s ?w2 = (r, w')"
        by simp
      note IH = "1.IH" [OF True g [symmetric] refl busy sl "1.prems"(1) rec]
      have c2: "clock w \<le> clock ?w2" using c1 "1.prems"(1) by simp
      have s2: "sent ?w2 = sent w @ [(clock w, GET ?url)]" using s1 by simp
      have a: "r = Inr True \<or> r = Inr False" using IH by blast
      have b: "clock w \<le> clock w'" using IH c2 by linarith
      from IH obtain xs where xs: "sent w' = sent ?w2 @ xs" "r = Inr True \<longrightarrow> xs \<noteq> []"
        by blast
      then have "sent w' = sent w @ ((clock w, GET ?url) # xs)" using s2 by simp
      then have c: "\<exists>xs. sent w' = sent w @ xs \<and> (r = Inr True \<longrightarrow> xs \<noteq> [])"
        by blast
      have d: "\<exists>w0 body. clock w \<le> clock w0 \<and> clock w0 < deadline
               \<and> (\<exists>ys. sent w0 = sent w @ ys)
               \<and> get E ?url w0 = ((200, body), w') \<and> queue_status_idle E body"
        if t: "r = Inr True"
      proof -
        from IH t obtain w0 body' ys where
          w0: "clock ?w2 \<le> clock w0" "clock w0 < deadline" "sent w0 = sent ?w2 @ ys"
              "get E ?url w0 = ((200, body'), w')" "queue_status_idle E body'"
          by blast
        have "clock w \<le> clock w0" using w0(1) c2 by linarith
        moreover have "\<exists>ys. sent w0 = sent w @ ys" using w0(3) s2 by simp
        ultimately show ?thesis using w0 by blast
      qed
      show ?thesis
      proof (intro conjI impI)
        show "r = Inr True \<or> r = Inr False" by (rule a)
        show "clock w \<le> clock w'" by (rule b)
        show "\<exists>xs. sent w' = sent w @ xs \<and> (r = Inr True \<longrightarrow> xs \<noteq> [])" by (rule c)
        show "\<exists>w0 body. clock w \<le> clock w0 \<and> clock w0 < deadline
               \<and> (\<exists>ys. sent w0 = sent w @ ys)
               \<and> get E ?url w0 = ((200, body), w') \<and> queue_status_idle E body"
          if "r = Inr True" using d that by simp
      qed
    qed
  qed
qed

lemma queue_status_idle_typed:
  assumes "json_loads E body = Some (JObj d)"
    and "map_of d ''is_processing'' = Some (JBool p)"
    and "map_of d ''in_progress_count'' = Some (JInt n)"
  shows "queue_status_idle E body \<longleftrightarrow> \<not> p \<and> n = 0"
  using assms by (simp add: queue_status_idle_def py_get_def py_get_default_def)

lemma queue_status_idle_processing:
  assumes "json_loads E body = Some (JObj d)"
    and "map_of d ''is_processing'' = Some (JBool True)"
  shows "\<not> queue_status_idle E body"
  using assms by (simp add: queue_status_idle_def py_get_def)

lemma queue_status_idle_missing:
  assumes "json_loads E body = Some (JObj d)"
    and "map_of d ''is_processing'' = None"
    and "map_of d ''in_progress_count'' = None"
  shows "queue_status_idle E body"
  using assms by (simp add: queue_status_idle_def py_get_def py_get_default_def)

lemma wait_queue_idle_loop_not_here:
  assumes "clock w < deadline"
    and "get E (api_base @ ''/manager/queue/status'') w = ((code, body), w1)"
    and "\<not> (code = 200 \<and> queue_status_idle E body)"
  shows "wait_queue_idle_loop E api_base deadline poll_s w \<noteq> (Inr True, w1)"
proof (cases "0 \<le> poll_s")
  case True
  let ?w2 = "w1\<lparr>clock := clock w1 + poll_s\<rparr>"
  obtain r w' where rw: "wait_queue_idle_loop E api_base deadline poll_s ?w2 = (r, w')"
    by (cases "wait_queue_idle_loop E api_base deadline poll_s ?w2") auto
  from wait_queue_idle_loop_result [OF True rw]
  obtain xs where "sent w' = sent ?w2 @ xs" "r = Inr True \<longrightarrow> xs \<noteq> []" by blast
  then have "r = Inr True \<longrightarrow> w' \<noteq> w1" by auto
  with wait_queue_idle_loop_busy [OF assms True] rw show ?thesis by auto
next
  case False
  then have "sleep poll_s w1 = Inl ValueError" by (simp add: sleep_def)
  with assms have "wait_queue_idle_loop E api_base deadline poll_s w = (Inl ValueError, w1)"
    by (subst wait_queue_idle_loop.simps) auto
  then show ?thesis by simp
qed

text \<open>
  C2. At any poll of \<^verbatim>\<open>wait_queue_idle\<close> made before the deadline and answered with status
  200 and an object whose \<^verbatim>\<open>is_processing\<close> is a boolean: when it is true the call does not
  return true on this answer, whatever \<^verbatim>\<open>in_progress_count\<close> is; and when
  \<^verbatim>\<open>in_progress_count\<close> is an integer, the call returns true on this answer, with nothing
  further sent, exactly when \<^verbatim>\<open>is_processing\<close> is false and the count is 0.
\<close>

theorem wait_queue_idle_poll:
  assumes "clock w < deadline"
    and "status (next_answer E w (GET (api_base @ ''/manager/queue/status''))) = 200"
    and "json_loads E (resp_text (next_answer E w (GET (api_base @ ''/manager/queue/status''))))
           = Some (JObj d)"
    and "map_of d ''is_processing'' = Some (JBool p)"
  shows "(p \<longrightarrow> wait_queue_idle_loop E api_base deadline poll_s w
                \<noteq> (Inr True, snd (get E (api_base @ ''/manager/queue/status'') w)))
       \<and> (\<forall>n. map_of d ''in_progress_count'' = Some (JInt n) \<longrightarrow>
              (wait_queue_idle_loop E api_base deadline poll_s w
                 = (Inr True, snd (get E (api_base @ ''/manager/queue/status'') w))
               \<longleftrightarrow> \<not> p \<and> n = 0))"
proof -
  let ?url = "api_base @ ''/manager/queue/status''"
  let ?a = "next_answer E w (GET ?url)"
  let ?w1 = "snd (get E ?url w)"
  have g: "get E ?url w = ((200, resp_text ?a), ?w1)"
    using assms(2) by (simp add: get_result)
  have 1: "wait_queue_idle_loop E api_base deadline poll_s w \<noteq> (Inr True, ?w1)" if p
  proof -
    from that assms(3,4) have "\<not> queue_status_idle E (resp_text ?a)"
      by (simp add: queue_status_idle_processing)
    then have "\<not> (200 = (200::int) \<and> queue_status_idle E (resp_text ?a))" by simp
    from wait_queue_idle_loop_not_here [OF assms(1) g this] show ?thesis .
  qed
  have 2: "wait_queue_idle_loop E api_base deadline poll_s w = (Inr True, ?w1)
             \<longleftrightarrow> \<not> p \<and> n = 0"
    if n: "map_of d ''in_progress_count'' = Some (JInt n)" for n
  proof (cases "\<not> p \<and> n = 0")
    case True
    with queue_status_idle_typed [OF assms(3,4) n]
    have "200 = (200::int) \<and> queue_status_idle E (resp_text ?a)" by simp
    from wait_queue_idle_loop_idle [OF assms(1) g this] True show ?thesis by simp
  next
    case False
    with queue_status_idle_typed [OF assms(3,4) n]
    have "\<not> (200 = (200::int) \<and> queue_status_idle E (resp_text ?a))" by simp
    from wait_queue_idle_loop_not_here [OF assms(1) g this] False show ?thesis by simp
  qed
  from 1 2 show ?thesis by blast
qed

theorem wait_queue_idle_poll_witness:
  "clock world0 < 180
   \<and> wait_queue_idle_loop (steady_env queue_idle_json) ''https://ui-abc123/api'' 180 (3 / 2) world0
       = (Inr True, snd (get (steady_env queue_idle_json)
                          (''https://ui-abc123/api'' @ ''/manager/queue/status'') world0))
   \<and> wait_queue_idle_loop (steady_env queue_busy_json) ''https://ui-abc123/api'' 180 (3 / 2) world0
       \<noteq> (Inr True, snd (get (steady_env queue_busy_json)
                          (''https://ui-abc123/api'' @ ''/manager/queue/status'') world0))
   \<and> wait_queue_idle_loop (steady_env queue_processing_json) ''https://ui-abc123/api'' 180 (3 / 2)
         world0
       \<noteq> (Inr True, snd (get (steady_env queue_processing_json)
                          (''https://ui-abc123/api'' @ ''/manager/queue/status'') world0))"
proof -
  let ?url = "''https://ui-abc123/api'' @ ''/manager/queue/status''"
  have h1: "clock world0 < 180" by (simp add: world0_def)
  have h2: "status (next_answer (steady_env j) world0 (GET ?url)) = 200" for j
    by (simp add: steady_env_def next_answer_def)
  have h3: "json_loads (steady_env (JObj d))
              (resp_text (next_answer (steady_env (JObj d)) world0 (GET ?url))) = Some (JObj d)"
    for d by (simp add: steady_env_def)
  have i1: "map_of [(''is_processing'', JBool False), (''in_progress_count'', JInt 0)]
              ''is_processing'' = Some (JBool False)" by simp
  have i2: "map_of [(''is_processing'', JBool False), (''in_progress_count'', JInt 0)]
              ''in_progress_count'' = Some (JInt 0)" by simp
  have b1: "map_of [(''is_processing'', JBool False), (''in_progress_count'', JInt 2)]
              ''is_processing'' = Some (JBool False)" by simp
  have b2: "map_of [(''is_processing'', JBool False), (''in_progress_count'', JInt 2)]
              ''in_progress_count'' = Some (JInt 2)" by simp
  have p1: "map_of [(''is_processing'', JBool True), (''in_progress_count'', JInt 0)]
              ''is_processing'' = Some (JBool True)" by simp
  from wait_queue_idle_poll [OF h1 h2 h3 i1, of "3 / 2"] i2
       wait_queue_idle_poll [OF h1 h2 h3 b1, of "3 / 2"] b2
       wait_queue_idle_poll [OF h1 h2 h3 p1, of "3 / 2"] h1
  show ?thesis
    unfolding queue_idle_json_def queue_busy_json_def queue_processing_json_def by simp
qed

text \<open>
  C10. When the first status request of \<^verbatim>\<open>wait_queue_idle\<close> is answered with status 200 and
  an object that has neither \<^verbatim>\<open>is_processing\<close> nor \<^verbatim>\<open>in_progress_count\<close>, such as \<^verbatim>\<open>{}\<close>,
  the call returns true on that answer.
\<close>

theorem wait_queue_idle_missing_fields:
  assumes "0 < timeout_s"
    and "status (next_answer E w (GET (api_base @ ''/manager/queue/status''))) = 200"
    and "json_loads E (resp_text (next_answer E w (GET (api_base @ ''/manager/queue/status''))))
           = Some (JObj d)"
    and "map_of d ''is_processing'' = None"
    and "map_of d ''in_progress_count'' = None"
  shows "wait_queue_idle E api_base timeout_s poll_s w
           = (Inr True, snd (get E (api_base @ ''/manager/queue/status'') w))"
proof -
  let ?url = "api_base @ ''/manager/queue/status''"
  let ?a = "next_answer E w (GET ?url)"
  have g: "get E ?url w = ((200, resp_text ?a), snd (get E ?url w))"
    using assms(2) by (simp add: get_result)
  have "200 = (200::int) \<and> queue_status_idle E (resp_text ?a)"
    using queue_status_idle_missing [OF assms(3,4,5)] by simp
  moreover have "clock w < clock w + timeout_s" using assms(1) by simp
  ultimately show ?thesis
    unfolding wait_queue_idle_def using g by (rule wait_queue_idle_loop_idle [rotated 2])
qed

theorem wait_queue_idle_missing_fields_witness:
  "wait_queue_idle (steady_env (JObj [])) ''https://ui-abc123/api'' 180 (3 / 2) world0
     = (Inr True, snd (get (steady_env (JObj []))
                        (''https://ui-abc123/api'' @ ''/manager/queue/status'') world0))"
proof -
  let ?url = "''https://ui-abc123/api'' @ ''/manager/queue/status''"
  have h1: "(0::rat) < 180" by simp
  have h2: "status (next_answer (steady_env (JObj [])) world0 (GET ?url)) = 200"
    by (simp add: steady_env_def next_answer_def)
  have h3: "json_loads (steady_env (JObj []))
              (resp_text (next_answer (steady_env (JObj [])) world0 (GET ?url))) = Some (JObj [])"
    by (simp add: steady_env_def)
  have h4: "map_of ([] :: pydict) ''is_processing'' = None" by simp
  have h5: "map_of ([] :: pydict) ''in_progress_count'' = None" by simp
  from wait_queue_idle_missing_fields [OF h1 h2 h3 h4 h5] show ?thesis .
qed

section \<open>Properties of the enqueue loop of a node install\<close>

declare install_node_enqueue_loop.simps [simp del]

lemma post_result:
  "post E url payload ct w =
     ((status (next_answer E w (POST url payload ct)),
       resp_text (next_answer E w (POST url payload ct))),
      w\<lparr>clock := clock w + (1 + of_nat (elapsed (next_answer E w (POST url payload ct)))) / 1000,
        sent := sent w @ [(clock w, POST url payload ct)]\<rparr>)"
  by (simp add: post_def transport_def next_answer_def Let_def)

lemma transient_not_200: "c \<in> transient_codes \<Longrightarrow> c \<noteq> 200"
  by (auto simp: transient_codes_def)

lemma install_node_enqueue_loop_exhausted:
  "\<not> attempts < 6 \<Longrightarrow>
   install_node_enqueue_loop E api_base payload attempts backoff w = (Inr False, w)"
  by (subst install_node_enqueue_loop.simps) simp

lemma install_node_enqueue_loop_accepted:
  "attempts < 6 \<Longrightarrow>
   post E (api_base @ ''/manager/queue/install'') payload ''text/plain;charset=UTF-8'' w
     = ((200, body), w1) \<Longrightarrow>
   install_node_enqueue_loop E api_base payload attempts backoff w
     = wait_queue_idle E api_base 180 (3 / 2) (queue_start E api_base w1)"
  by (subst install_node_enqueue_loop.simps) simp

lemma install_node_enqueue_loop_transient:
  "attempts < 6 \<Longrightarrow>
   post E (api_base @ ''/manager/queue/install'') payload ''text/plain;charset=UTF-8'' w
     = ((code, body), w1) \<Longrightarrow>
   code \<in> transient_codes \<Longrightarrow> 0 \<le> backoff \<Longrightarrow>
   install_node_enqueue_loop E api_base payload attempts backoff w
     = install_node_enqueue_loop E api_base payload (attempts + 1)
         (min (backoff * (17 / 10)) 10) (w1\<lparr>clock := clock w1 + backoff\<rparr>)"
  by (subst install_node_enqueue_loop.simps) (auto simp: sleep_def dest: transient_not_200)

lemma install_node_enqueue_loop_hard:
  "attempts < 6 \<Longrightarrow>
   post E (api_base @ ''/manager/queue/install'') payload ''text/plain;charset=UTF-8'' w
     = ((code, body), w1) \<Longrightarrow>
   code \<noteq> 200 \<Longrightarrow> code \<notin> transient_codes \<Longrightarrow>
   install_node_enqueue_loop E api_base payload attempts backoff w
     = (Inl (RuntimeError (''[nodes] enqueue failed '' @ str_int code @ '': '' @ body)), w1)"
  by (subst install_node_enqueue_loop.simps) simp

lemma backoff_step: "(3::rat) / 2 \<le> b \<Longrightarrow> 3 / 2 \<le> min (b * (17 / 10)) 10"
  by (simp add: min_def)

lemma install_node_enqueue_loop_skip:
  assumes "\<forall>i<k. status (http E (length (sent w) + i) (node_install_request api_base payload))
                   \<in> transient_codes"
    and "attempts + k \<le> 6"
    and "3 / 2 \<le> backoff"
  shows "\<exists>w' b'. install_node_enqueue_loop E api_base payload attempts backoff w
                   = install_node_enqueue_loop E api_base payload (attempts + k) b' w'
               \<and> 3 / 2 \<le> b'
               \<and> map snd (sent w')
                   = map snd (sent w) @ replicate k (node_install_request api_base payload)
               \<and> clock w + of_nat k * (3 / 2) \<le> clock w'"
  using assms
proof (induction k arbitrary: attempts backoff w)
  case 0
  have "install_node_enqueue_loop E api_base payload attempts backoff w
          = install_node_enqueue_loop E api_base payload (attempts + 0) backoff w
        \<and> 3 / 2 \<le> backoff
        \<and> map snd (sent w) = map snd (sent w) @ replicate 0 (node_install_request api_base payload)
        \<and> clock w + of_nat 0 * (3 / 2) \<le> clock w"
    using "0.prems" by simp
  then show ?case by blast
next
  case (Suc k)
  let ?rq = "node_install_request api_base payload"
  let ?a = "next_answer E w ?rq"
  let ?w1 = "w\<lparr>clock := clock w + (1 + of_nat (elapsed ?a)) / 1000,
               sent := sent w @ [(clock w, ?rq)]\<rparr>"
  let ?w2 = "?w1\<lparr>clock := clock ?w1 + backoff\<rparr>"
  let ?b2 = "min (backoff * (17 / 10)) 10"
  have p: "post E (api_base @ ''/manager/queue/install'') payload ''text/plain;charset=UTF-8'' w
             = ((status ?a, resp_text ?a), ?w1)"
    by (simp add: post_result node_install_request_def)
  from Suc.prems(1) have t0: "status ?a \<in> transient_codes"
    by (auto simp: next_answer_def dest: spec [of _ 0])
  from Suc.prems(2) have lt: "attempts < 6" by simp
  from Suc.prems(3) have b0: "0 \<le> backoff" by simp
  have step: "install_node_enqueue_loop E api_base payload attempts backoff w
                = install_node_enqueue_loop E api_base payload (attempts + 1) ?b2 ?w2"
    by (rule install_node_enqueue_loop_transient [OF lt p t0 b0])
  have h1: "\<forall>i<k. status (http E (length (sent ?w2) + i) ?rq) \<in> transient_codes"
  proof (intro allI impI)
    fix i assume "i < k"
    then have "Suc i < Suc k" by simp
    with Suc.prems(1) have "status (http E (length (sent w) + Suc i) ?rq) \<in> transient_codes"
      by blast
    then show "status (http E (length (sent ?w2) + i) ?rq) \<in> transient_codes" by simp
  qed
  have h2: "(attempts + 1) + k \<le> 6" using Suc.prems(2) by simp
  have h3: "3 / 2 \<le> ?b2" using Suc.prems(3) by (rule backoff_step)
  from Suc.IH [OF h1 h2 h3] obtain w' b' where
    r: "install_node_enqueue_loop E api_base payload (attempts + 1) ?b2 ?w2
          = install_node_enqueue_loop E api_base payload (attempts + 1 + k) b' w'"
       "3 / 2 \<le> b'"
       "map snd (sent w') = map snd (sent ?w2) @ replicate k ?rq"
       "clock ?w2 + of_nat k * (3 / 2) \<le> clock w'"
    by blast
  have e1: "install_node_enqueue_loop E api_base payload attempts backoff w
              = install_node_enqueue_loop E api_base payload (attempts + Suc k) b' w'"
    using step r(1) by simp
  have e3: "map snd (sent w') = map snd (sent w) @ replicate (Suc k) ?rq"
    using r(3) by (simp add: replicate_app_Cons_same)
  have nn: "(0::rat) \<le> (1 + of_nat (elapsed ?a)) / 1000"
    by (rule divide_nonneg_nonneg) simp_all
  have "clock ?w2 = clock w + (1 + of_nat (elapsed ?a)) / 1000 + backoff" by simp
  with nn Suc.prems(3) have c2: "clock w + 3 / 2 \<le> clock ?w2" by linarith
  have kk: "(of_nat (Suc k) :: rat) * (3 / 2) = of_nat k * (3 / 2) + 3 / 2"
    by (simp add: algebra_simps)
  have e4: "clock w + of_nat (Suc k) * (3 / 2) \<le> clock w'"
    unfolding kk using r(4) c2 by linarith
  from e1 r(2) e3 e4 show ?case by blast
qed


lemma queue_start_sent:
  "sent (queue_start E api_base w) = sent w @ [(clock w, GET (api_base @ ''/manager/queue/start''))]"
  by (simp add: queue_start_def get_result)

lemma queue_start_clock: "clock w \<le> clock (queue_start E api_base w)"
  using get_clock [of w E "api_base @ ''/manager/queue/start''"] by (simp add: queue_start_def)

lemma queue_reset_sent:
  "sent (queue_reset E api_base w) = sent w @ [(clock w, GET (api_base @ ''/manager/queue/reset''))]"
  by (simp add: queue_reset_def get_result)

lemma queue_reset_clock: "clock w \<le> clock (queue_reset E api_base w)"
  using get_clock [of w E "api_base @ ''/manager/queue/reset''"] by (simp add: queue_reset_def)

lemma wait_queue_idle_sent:
  assumes "0 \<le> poll_s"
  shows "\<exists>xs. sent (snd (wait_queue_idle E api_base timeout_s poll_s w)) = sent w @ xs"
proof -
  obtain r w' where rw: "wait_queue_idle_loop E api_base (clock w + timeout_s) poll_s w = (r, w')"
    by (cases "wait_queue_idle_loop E api_base (clock w + timeout_s) poll_s w") auto
  from wait_queue_idle_loop_result [OF assms rw] rw show ?thesis
    by (auto simp: wait_queue_idle_def)
qed

lemma install_node_enqueue_loop_sent:
  "0 \<le> backoff \<Longrightarrow>
   \<exists>xs. sent (snd (install_node_enqueue_loop E api_base payload attempts backoff w)) = sent w @ xs"
proof (induction E api_base payload attempts backoff w rule: install_node_enqueue_loop.induct)
  case (1 E api_base payload attempts backoff w)
  let ?rq = "node_install_request api_base payload"
  show ?case
  proof (cases "attempts < 6")
    case False
    then show ?thesis by (simp add: install_node_enqueue_loop_exhausted)
  next
    case True
    obtain code body w1 where
      p: "post E (api_base @ ''/manager/queue/install'') payload ''text/plain;charset=UTF-8'' w
            = ((code, body), w1)"
      by (cases "post E (api_base @ ''/manager/queue/install'') payload
                   ''text/plain;charset=UTF-8'' w") auto
    then have s1: "sent w1 = sent w @ [(clock w, ?rq)]"
      by (auto simp: post_result node_install_request_def)
    consider (acc) "code = 200" | (tr) "code \<in> transient_codes" | (hard) "code \<noteq> 200" "code \<notin> transient_codes"
      by blast
    then show ?thesis
    proof cases
      case acc
      with p have p': "post E (api_base @ ''/manager/queue/install'') payload
                         ''text/plain;charset=UTF-8'' w = ((200, body), w1)" by simp
      have "(0::rat) \<le> 3 / 2" by simp
      from wait_queue_idle_sent [OF this, of E api_base 180 "queue_start E api_base w1"]
      obtain xs where "sent (snd (wait_queue_idle E api_base 180 (3 / 2) (queue_start E api_base w1)))
                         = sent (queue_start E api_base w1) @ xs" by blast
      then show ?thesis
        using install_node_enqueue_loop_accepted [OF True p'] s1
        by (simp add: queue_start_sent)
    next
      case tr
      let ?w2 = "w1\<lparr>clock := clock w1 + backoff\<rparr>"
      have sl: "sleep backoff w1 = Inr ?w2" using "1.prems" by (rule sleep_ok)
      have nb: "0 \<le> min (backoff * (17 / 10)) 10" using "1.prems" by (simp add: min_def)
      from "1.IH" [OF True p [symmetric] refl transient_not_200 [OF tr] tr sl nb]
      obtain xs where "sent (snd (install_node_enqueue_loop E api_base payload (attempts + 1)
                          (min (backoff * (17 / 10)) 10) ?w2)) = sent ?w2 @ xs" by blast
      then show ?thesis
        using install_node_enqueue_loop_transient [OF True p tr "1.prems"] s1 by simp
    next
      case hard
      then show ?thesis
        using install_node_enqueue_loop_hard [OF True p hard] s1 by simp
    qed
  qed
qed

lemma install_node_enqueue_loop_sends:
  assumes "attempts < 6" and "0 \<le> backoff"
  shows "\<exists>xs. map snd (sent (snd (install_node_enqueue_loop E api_base payload attempts backoff w)))
               = map snd (sent w) @ node_install_request api_base payload # xs"
proof -
  let ?rq = "node_install_request api_base payload"
  obtain code body w1 where
    p: "post E (api_base @ ''/manager/queue/install'') payload ''text/plain;charset=UTF-8'' w
          = ((code, body), w1)"
    by (cases "post E (api_base @ ''/manager/queue/install'') payload
                 ''text/plain;charset=UTF-8'' w") auto
  then have s1: "sent w1 = sent w @ [(clock w, ?rq)]"
    by (auto simp: post_result node_install_request_def)
  consider (acc) "code = 200" | (tr) "code \<in> transient_codes" | (hard) "code \<noteq> 200" "code \<notin> transient_codes"
    by blast
  then show ?thesis
  proof cases
    case acc
    with p have p': "post E (api_base @ ''/manager/queue/install'') payload
                       ''text/plain;charset=UTF-8'' w = ((200, body), w1)" by simp
    have "(0::rat) \<le> 3 / 2" by simp
    from wait_queue_idle_sent [OF this, of E api_base 180 "queue_start E api_base w1"]
    obtain xs where "sent (snd (wait_queue_idle E api_base 180 (3 / 2) (queue_start E api_base w1)))
                       = sent (queue_start E api_base w1) @ xs" by blast
    then show ?thesis
      using install_node_enqueue_loop_accepted [OF assms(1) p'] s1
      by (simp add: queue_start_sent)
  next
    case tr
    let ?w2 = "w1\<lparr>clock := clock w1 + backoff\<rparr>"
    have nb: "0 \<le> min (backoff * (17 / 10)) 10" using assms(2) by (simp add: min_def)
    from install_node_enqueue_loop_sent [OF nb, of E api_base payload "attempts + 1" ?w2]
    obtain xs where "sent (snd (install_node_enqueue_loop E api_base payload (attempts + 1)
                        (min (backoff * (17 / 10)) 10) ?w2)) = sent ?w2 @ xs" by blast
    then show ?thesis
      using install_node_enqueue_loop_transient [OF assms(1) p tr assms(2)] s1 by simp
  next
    case hard
    then show ?thesis
      using install_node_enqueue_loop_hard [OF assms(1) p hard] s1 by simp
  qed
qed


text \<open>
  C1. The enqueue loop of \<^verbatim>\<open>install_node_by_query\<close>, when its first \<open>k\<close> attempts (\<open>k < 6\<close>)
  are answered with transient codes. If attempt \<open>k\<close> is answered 200, the call goes on
  to the start signal and returns what \<^verbatim>\<open>wait_queue_idle\<close> returns, after \<open>k + 1\<close> enqueue
  requests and \<open>k\<close> sleeps of at least 1.5 s: for the answers 503, 503, 200 this is the
  third attempt. If attempt \<open>k\<close> is answered with a transient code too, the call sends
  a further attempt, unless it was the sixth: then it returns false and sends nothing
  more. If attempt \<open>k\<close> is answered with any other code, the call raises at once an
  error whose message ends with the body of the answer.
\<close>

theorem install_node_enqueue_retry:
  assumes "k < 6"
    and "\<forall>i<k. status (enqueue_answer E w (node_install_request api_base payload) i)
                   \<in> transient_codes"
  shows
   "(status (enqueue_answer E w (node_install_request api_base payload) k) = 200 \<longrightarrow>
       (\<exists>w'. install_node_enqueue E api_base payload w
                = wait_queue_idle E api_base 180 (3 / 2) w'
            \<and> map snd (sent w')
                = map snd (sent w) @ GET (api_base @ ''/manager/queue/reset'')
                    # replicate (Suc k) (node_install_request api_base payload)
                    @ [GET (api_base @ ''/manager/queue/start'')]
            \<and> clock w + of_nat k * (3 / 2) \<le> clock w'))
  \<and> (status (enqueue_answer E w (node_install_request api_base payload) k) \<in> transient_codes \<longrightarrow>
       (if k = 5
        then (\<exists>w'. install_node_enqueue E api_base payload w = (Inr False, w')
                \<and> map snd (sent w')
                    = map snd (sent w) @ GET (api_base @ ''/manager/queue/reset'')
                        # replicate 6 (node_install_request api_base payload)
                \<and> clock w + 6 * (3 / 2) \<le> clock w')
        else (\<exists>xs. map snd (sent (snd (install_node_enqueue E api_base payload w)))
                    = map snd (sent w) @ GET (api_base @ ''/manager/queue/reset'')
                        # replicate (k + 2) (node_install_request api_base payload) @ xs)))
  \<and> (status (enqueue_answer E w (node_install_request api_base payload) k) \<noteq> 200
       \<and> status (enqueue_answer E w (node_install_request api_base payload) k) \<notin> transient_codes \<longrightarrow>
       (\<exists>w'. install_node_enqueue E api_base payload w
                = (Inl (RuntimeError
                     (''[nodes] enqueue failed ''
                      @ str_int (status (enqueue_answer E w
                                   (node_install_request api_base payload) k))
                      @ '': ''
                      @ resp_text (enqueue_answer E w
                                     (node_install_request api_base payload) k))), w')
            \<and> map snd (sent w')
                = map snd (sent w) @ GET (api_base @ ''/manager/queue/reset'')
                    # replicate (Suc k) (node_install_request api_base payload)))"
proof -
  let ?rq = "node_install_request api_base payload"
  let ?reset = "GET (api_base @ ''/manager/queue/reset'')"
  let ?w0 = "queue_reset E api_base w"
  have s0: "map snd (sent ?w0) = map snd (sent w) @ [?reset]"
    by (simp add: queue_reset_sent)
  have l0: "length (sent ?w0) = Suc (length (sent w))"
    by (simp add: queue_reset_sent)
  have c0: "clock w \<le> clock ?w0" by (rule queue_reset_clock)
  have ans: "enqueue_answer E w ?rq i = http E (length (sent ?w0) + i) ?rq" for i
    by (simp add: enqueue_answer_def l0)
  have b0: "(3::rat) / 2 \<le> 3 / 2" by simp
  \<comment> \<open>the first \<open>k\<close> attempts\<close>
  have h1: "\<forall>i<k. status (http E (length (sent ?w0) + i) ?rq) \<in> transient_codes"
    using assms(2) by (simp add: ans)
  have h2: "0 + k \<le> 6" using assms(1) by simp
  from install_node_enqueue_loop_skip [OF h1 h2 b0] obtain wk bk where
    sk: "install_node_enqueue_loop E api_base payload 0 (3 / 2) ?w0
           = install_node_enqueue_loop E api_base payload (0 + k) bk wk"
        "3 / 2 \<le> bk"
        "map snd (sent wk) = map snd (sent ?w0) @ replicate k ?rq"
        "clock ?w0 + of_nat k * (3 / 2) \<le> clock wk"
    by blast
  have lk: "length (sent wk) = length (sent ?w0) + k"
    using arg_cong [OF sk(3), of length] by simp
  let ?a = "enqueue_answer E w ?rq k"
  have na: "next_answer E wk ?rq = ?a"
    by (simp add: next_answer_def ans lk)
  let ?w1 = "wk\<lparr>clock := clock wk + (1 + of_nat (elapsed ?a)) / 1000,
               sent := sent wk @ [(clock wk, ?rq)]\<rparr>"
  have p: "post E (api_base @ ''/manager/queue/install'') payload ''text/plain;charset=UTF-8'' wk
             = ((status ?a, resp_text ?a), ?w1)"
    using na by (simp add: post_result node_install_request_def)
  have s1: "map snd (sent ?w1) = map snd (sent w) @ ?reset # replicate (Suc k) ?rq"
    using sk(3) s0 by (simp add: replicate_append_same)
  have start: "install_node_enqueue E api_base payload w
                 = install_node_enqueue_loop E api_base payload k bk wk"
    using sk(1) by (simp add: install_node_enqueue_def)
  have ck: "clock w + of_nat k * (3 / 2) \<le> clock wk" using sk(4) c0 by linarith
  have nn: "(0::rat) \<le> (1 + of_nat (elapsed ?a)) / 1000"
    by (rule divide_nonneg_nonneg) simp_all
  have c1: "clock wk \<le> clock ?w1" using nn by simp
  \<comment> \<open>accepted\<close>
  have A: "\<exists>w'. install_node_enqueue E api_base payload w
                  = wait_queue_idle E api_base 180 (3 / 2) w'
            \<and> map snd (sent w')
                = map snd (sent w) @ ?reset # replicate (Suc k) ?rq
                    @ [GET (api_base @ ''/manager/queue/start'')]
            \<and> clock w + of_nat k * (3 / 2) \<le> clock w'"
    if acc: "status ?a = 200"
  proof -
    from p acc have p': "post E (api_base @ ''/manager/queue/install'') payload
                           ''text/plain;charset=UTF-8'' wk = ((200, resp_text ?a), ?w1)" by simp
    let ?w2 = "queue_start E api_base ?w1"
    have "install_node_enqueue E api_base payload w = wait_queue_idle E api_base 180 (3 / 2) ?w2"
      using start install_node_enqueue_loop_accepted [OF assms(1) p'] by simp
    moreover have "map snd (sent ?w2) = map snd (sent w) @ ?reset # replicate (Suc k) ?rq
                     @ [GET (api_base @ ''/manager/queue/start'')]"
      using s1 by (simp add: queue_start_sent)
    moreover have "clock w + of_nat k * (3 / 2) \<le> clock ?w2"
      using ck c1 queue_start_clock [of ?w1 E api_base] by linarith
    ultimately show ?thesis by blast
  qed
  \<comment> \<open>transient\<close>
  let ?w2 = "?w1\<lparr>clock := clock ?w1 + bk\<rparr>"
  let ?b2 = "min (bk * (17 / 10)) 10"
  have bk0: "0 \<le> bk" using sk(2) by simp
  have T: "install_node_enqueue E api_base payload w
             = install_node_enqueue_loop E api_base payload (k + 1) ?b2 ?w2"
    if tr: "status ?a \<in> transient_codes"
    using start install_node_enqueue_loop_transient [OF assms(1) p tr bk0] by simp
  have s2: "map snd (sent ?w2) = map snd (sent w) @ ?reset # replicate (Suc k) ?rq"
    using s1 by simp
  have B: "\<exists>w'. install_node_enqueue E api_base payload w = (Inr False, w')
                \<and> map snd (sent w') = map snd (sent w) @ ?reset # replicate 6 ?rq
                \<and> clock w + 6 * (3 / 2) \<le> clock w'"
    if tr: "status ?a \<in> transient_codes" and k5: "k = 5"
  proof -
    have "install_node_enqueue E api_base payload w = (Inr False, ?w2)"
      using T [OF tr] k5 by (simp add: install_node_enqueue_loop_exhausted)
    moreover have "map snd (sent ?w2) = map snd (sent w) @ ?reset # replicate 6 ?rq"
      using s2 k5 by simp
    moreover have "clock w + 6 * (3 / 2) \<le> clock ?w2"
    proof -
      have "clock ?w2 = clock wk + (1 + of_nat (elapsed ?a)) / 1000 + bk" by simp
      moreover have "clock w + 5 * (3 / 2) \<le> clock wk" using ck k5 by simp
      ultimately show ?thesis using nn sk(2) by linarith
    qed
    ultimately show ?thesis by blast
  qed
  have C: "\<exists>xs. map snd (sent (snd (install_node_enqueue E api_base payload w)))
                  = map snd (sent w) @ ?reset # replicate (k + 2) ?rq @ xs"
    if tr: "status ?a \<in> transient_codes" and k5: "k \<noteq> 5"
  proof -
    have lt: "k + 1 < 6" using assms(1) k5 by simp
    have nb: "0 \<le> ?b2" using bk0 by (simp add: min_def)
    from install_node_enqueue_loop_sends [OF lt nb, of E api_base payload ?w2]
    obtain xs where "map snd (sent (snd (install_node_enqueue_loop E api_base payload (k + 1)
                        ?b2 ?w2))) = map snd (sent ?w2) @ ?rq # xs" by blast
    then have "map snd (sent (snd (install_node_enqueue_loop E api_base payload (k + 1)
                        ?b2 ?w2)))
                 = (map snd (sent w) @ ?reset # replicate (Suc k) ?rq) @ ?rq # xs"
      unfolding s2 .
    moreover have "replicate (k + 2) ?rq = replicate (Suc k) ?rq @ [?rq]"
      by (simp add: replicate_append_same)
    ultimately have "map snd (sent (snd (install_node_enqueue_loop E api_base payload (k + 1)
                        ?b2 ?w2)))
                 = map snd (sent w) @ ?reset # replicate (k + 2) ?rq @ xs"
      by simp
    then have "map snd (sent (snd (install_node_enqueue E api_base payload w)))
                 = map snd (sent w) @ ?reset # replicate (k + 2) ?rq @ xs"
      unfolding T [OF tr] .
    then show ?thesis by blast
  qed
  \<comment> \<open>hard failure\<close>
  have D: "\<exists>w'. install_node_enqueue E api_base payload w
                  = (Inl (RuntimeError (''[nodes] enqueue failed '' @ str_int (status ?a)
                                        @ '': '' @ resp_text ?a)), w')
            \<and> map snd (sent w') = map snd (sent w) @ ?reset # replicate (Suc k) ?rq"
    if hard: "status ?a \<noteq> 200" "status ?a \<notin> transient_codes"
    using start install_node_enqueue_loop_hard [OF assms(1) p hard] s1 by simp
  from A B C D show ?thesis by simp
qed


theorem install_node_enqueue_retry_witness:
  "(\<exists>w'. install_node_enqueue (scripted_env [503, 503, 200] queue_idle_json)
             ''https://ui-abc123/api'' (Raw ''{}'') world0
           = wait_queue_idle (scripted_env [503, 503, 200] queue_idle_json)
               ''https://ui-abc123/api'' 180 (3 / 2) w'
       \<and> map snd (sent w')
           = map snd (sent world0) @ GET (''https://ui-abc123/api'' @ ''/manager/queue/reset'')
               # replicate 3 (node_install_request ''https://ui-abc123/api'' (Raw ''{}''))
               @ [GET (''https://ui-abc123/api'' @ ''/manager/queue/start'')]
       \<and> clock world0 + 2 * (3 / 2) \<le> clock w')
   \<and> fst (install_node_enqueue (scripted_env [503, 503, 200] queue_idle_json)
            ''https://ui-abc123/api'' (Raw ''{}'') world0) = Inr True
   \<and> (\<exists>w'. install_node_enqueue (scripted_env [] queue_idle_json)
               ''https://ui-abc123/api'' (Raw ''{}'') world0 = (Inr False, w')
         \<and> map snd (sent w')
             = map snd (sent world0) @ GET (''https://ui-abc123/api'' @ ''/manager/queue/reset'')
                 # replicate 6 (node_install_request ''https://ui-abc123/api'' (Raw ''{}''))
         \<and> clock world0 + 6 * (3 / 2) \<le> clock w')
   \<and> (\<exists>w'. install_node_enqueue (scripted_env [503, 418] queue_idle_json)
               ''https://ui-abc123/api'' (Raw ''{}'') world0
             = (Inl (RuntimeError ''[nodes] enqueue failed 418: busy''), w')
         \<and> map snd (sent w')
             = map snd (sent world0) @ GET (''https://ui-abc123/api'' @ ''/manager/queue/reset'')
                 # replicate 2 (node_install_request ''https://ui-abc123/api'' (Raw ''{}'')))"
proof -
  let ?api = "''https://ui-abc123/api''"
  let ?rq = "node_install_request ?api (Raw ''{}'')"
  let ?E1 = "scripted_env [503, 503, 200] queue_idle_json"
  let ?E2 = "scripted_env [] queue_idle_json"
  let ?E3 = "scripted_env [503, 418] queue_idle_json"
  have st: "status (enqueue_answer (scripted_env cs j) world0 ?rq i)
              = (if i < length cs then cs ! i else 500)" for cs j i
    by (simp add: enqueue_answer_def scripted_env_def world0_def node_install_request_def)
  have tx: "resp_text (enqueue_answer (scripted_env cs j) world0 ?rq i) = ''busy''" for cs j i
    by (simp add: enqueue_answer_def scripted_env_def world0_def node_install_request_def)
  have a1: "(2::nat) < 6" by simp
  have a2: "\<forall>i<2. status (enqueue_answer ?E1 world0 ?rq i) \<in> transient_codes"
    by (auto simp: st transient_codes_def less_2_cases_iff)
  have a3: "status (enqueue_answer ?E1 world0 ?rq 2) = 200" by (simp add: st)
  have b1: "(5::nat) < 6" by simp
  have b2: "\<forall>i<5. status (enqueue_answer ?E2 world0 ?rq i) \<in> transient_codes"
    by (simp add: st transient_codes_def)
  have b3: "status (enqueue_answer ?E2 world0 ?rq 5) \<in> transient_codes"
    by (simp add: st transient_codes_def)
  have c1: "(1::nat) < 6" by simp
  have c2: "\<forall>i<1. status (enqueue_answer ?E3 world0 ?rq i) \<in> transient_codes"
    by (simp add: st transient_codes_def)
  have c3: "status (enqueue_answer ?E3 world0 ?rq 1) = 418" by (simp add: st)
  have c4: "(418::int) \<noteq> 200 \<and> 418 \<notin> transient_codes" by (simp add: transient_codes_def)
  have c5: "str_int 418 = ''418''" by code_simp
  have d: "fst (install_node_enqueue ?E1 ?api (Raw ''{}'') world0) = Inr True"
    by code_simp
  from install_node_enqueue_retry [OF a1 a2] a3
  have A: "\<exists>w'. install_node_enqueue ?E1 ?api (Raw ''{}'') world0
                  = wait_queue_idle ?E1 ?api 180 (3 / 2) w'
            \<and> map snd (sent w')
                = map snd (sent world0) @ GET (?api @ ''/manager/queue/reset'')
                    # replicate 3 ?rq @ [GET (?api @ ''/manager/queue/start'')]
            \<and> clock world0 + 2 * (3 / 2) \<le> clock w'"
    by (simp add: numeral_3_eq_3)
  from install_node_enqueue_retry [OF b1 b2] b3
  have B: "\<exists>w'. install_node_enqueue ?E2 ?api (Raw ''{}'') world0 = (Inr False, w')
            \<and> map snd (sent w')
                = map snd (sent world0) @ GET (?api @ ''/manager/queue/reset'') # replicate 6 ?rq
            \<and> clock world0 + 6 * (3 / 2) \<le> clock w'"
    by simp
  from install_node_enqueue_retry [OF c1 c2] c3 c4 c5
  have C: "\<exists>w'. install_node_enqueue ?E3 ?api (Raw ''{}'') world0
                  = (Inl (RuntimeError ''[nodes] enqueue failed 418: busy''), w')
            \<and> map snd (sent w')
                = map snd (sent world0) @ GET (?api @ ''/manager/queue/reset'') # replicate 2 ?rq"
    by (simp add: tx numeral_2_eq_2)
  from A d B C show ?thesis by blast
qed

section \<open>Properties of the reboot cycle\<close>

declare wait_for_comfy_ready_loop.simps [simp del]
declare reboot_request_loop.simps [simp del]
declare reboot_phase_a_loop.simps [simp del]

lemma later_refl: "later w w"
  by (simp add: later_def)

lemma later_trans: "later w1 w2 \<Longrightarrow> later w2 w3 \<Longrightarrow> later w1 w3"
  by (auto simp: later_def)

lemma later_get: "later w (snd (get E url w))"
  by (simp add: later_def get_result)

lemma later_get': "get E url w = (r, w1) \<Longrightarrow> later w w1"
  using later_get [of w E url] by simp

lemma later_sleep: "sleep d w = Inr w' \<Longrightarrow> later w w'"
  by (auto simp: sleep_def later_def split: if_splits)

lemma later_sent: "later w w' \<Longrightarrow> \<exists>xs. sent w' = sent w @ xs"
  by (simp add: later_def)

lemma later_probe: "later w (snd (probe E api_base w))"
proof -
  obtain a w1 where g1: "get E (api_base @ ''/queue'') w = (a, w1)"
    by (cases "get E (api_base @ ''/queue'') w") auto
  obtain b w2 where
    g2: "get E (api_base @ ''/customnode/getlist?mode=cache&skip_update=true'') w1 = (b, w2)"
    by (cases "get E (api_base @ ''/customnode/getlist?mode=cache&skip_update=true'') w1") auto
  obtain c w3 where
    g3: "get E (api_base @ ''/externalmodel/getlist?mode=cache&skip_update=true'') w2 = (c, w3)"
    by (cases "get E (api_base @ ''/externalmodel/getlist?mode=cache&skip_update=true'') w2") auto
  obtain d w4 where
    g4: "get E (api_base @ ''/model/getlist?mode=cache&skip_update=true'') w3 = (d, w4)"
    by (cases "get E (api_base @ ''/model/getlist?mode=cache&skip_update=true'') w3") auto
  have "later w w4"
    using later_get' [OF g1] later_get' [OF g2] later_get' [OF g3] later_get' [OF g4]
    by (blast intro: later_trans)
  moreover have "snd (probe E api_base w) = w4"
    using g1 g2 g3 g4 by (simp add: probe_def split: prod.splits)
  ultimately show ?thesis by simp
qed

lemma later_wait_for_comfy_ready_loop:
  "later w (snd (wait_for_comfy_ready_loop E api_base start timeout_s backoff w))"
proof (induction E api_base start timeout_s backoff w rule: wait_for_comfy_ready_loop.induct)
  case (1 E api_base start timeout_s backoff w)
  show ?case
  proof (cases "clock w - start < timeout_s")
    case False
    then show ?thesis
      by (subst wait_for_comfy_ready_loop.simps) (simp add: later_refl)
  next
    case True
    obtain cq cn cem cm w4 where p: "probe E api_base w = ((cq, cn, cem, cm), w4)"
      by (cases "probe E api_base w") auto
    have l4: "later w w4" using later_probe [of w E api_base] p by simp
    show ?thesis
    proof (cases "ok cq \<and> (ok cn \<or> ok cem \<or> ok cm)")
      case up: True
      with True p l4 show ?thesis
        by (subst wait_for_comfy_ready_loop.simps) auto
    next
      case down: False
      show ?thesis
      proof (cases "sleep backoff w4")
        case (Inl e)
        with True p down l4 show ?thesis
          by (subst wait_for_comfy_ready_loop.simps) auto
      next
        case (Inr w5)
        note IH = "1.IH" [OF True p [symmetric] refl refl refl down Inr]
        have "later w w5" using l4 later_sleep [OF Inr] by (rule later_trans)
        with IH have "later w (snd (wait_for_comfy_ready_loop E api_base start timeout_s
                                      (min (backoff * (17 / 10)) 10) w5))"
          by (blast intro: later_trans)
        with True p down Inr show ?thesis
          by (subst wait_for_comfy_ready_loop.simps) auto
      qed
    qed
  qed
qed

lemma later_wait_for_comfy_ready:
  "later w (snd (wait_for_comfy_ready E api_base initial_sleep timeout_s w))"
proof (cases "if initial_sleep > 0 then sleep initial_sleep w else Inr w")
  case (Inl e)
  then show ?thesis by (simp add: wait_for_comfy_ready_def later_refl)
next
  case (Inr w0)
  then have "later w w0" by (auto simp: later_refl split: if_splits dest: later_sleep)
  with later_wait_for_comfy_ready_loop [of w0 E api_base "clock w0" timeout_s "3 / 2"] Inr
  show ?thesis by (auto simp: wait_for_comfy_ready_def intro: later_trans)
qed

lemma later_reboot_phase_a_loop:
  "later w (snd (reboot_phase_a_loop E api_base deadline backoff w))"
proof (induction E api_base deadline backoff w rule: reboot_phase_a_loop.induct)
  case (1 E api_base deadline backoff w)
  show ?case
  proof (cases "clock w < deadline")
    case False
    then show ?thesis
      by (subst reboot_phase_a_loop.simps) (simp add: later_refl)
  next
    case True
    obtain code body w1 where g: "get E (api_base @ ''/queue'') w = ((code, body), w1)"
      by (cases "get E (api_base @ ''/queue'') w") auto
    have l1: "later w w1" using later_get' [OF g] .
    show ?thesis
    proof (cases "code \<noteq> 200")
      case down: True
      with True g l1 show ?thesis
        by (subst reboot_phase_a_loop.simps) auto
    next
      case up: False
      show ?thesis
      proof (cases "sleep backoff w1")
        case (Inl e)
        with True g up l1 show ?thesis
          by (subst reboot_phase_a_loop.simps) auto
      next
        case (Inr w2)
        note IH = "1.IH" [OF True g [symmetric] refl up Inr]
        have "later w w2" using l1 later_sleep [OF Inr] by (rule later_trans)
        with IH have "later w (snd (reboot_phase_a_loop E api_base deadline
                                      (min (backoff * (14 / 10)) 4) w2))"
          by (blast intro: later_trans)
        with True g up Inr show ?thesis
          by (subst reboot_phase_a_loop.simps) auto
      qed
    qed
  qed
qed

lemma later_reboot_after_request:
  "later w (snd (reboot_after_request E api_base extra total_s w))"
proof -
  let ?dl = "clock w + min 120 (of_int \<lfloor>total_s / 3\<rfloor>)"
  obtain r1 w1 where a: "reboot_phase_a_loop E api_base ?dl (12 / 10) w = (r1, w1)"
    by (cases "reboot_phase_a_loop E api_base ?dl (12 / 10) w") auto
  have l1: "later w w1" using later_reboot_phase_a_loop [of w E api_base ?dl "12 / 10"] a by simp
  obtain r2 w2 where b: "wait_for_comfy_ready E api_base 0 (max 180 (total_s - 60)) w1 = (r2, w2)"
    by (cases "wait_for_comfy_ready E api_base 0 (max 180 (total_s - 60)) w1") auto
  have l2: "later w w2"
    using l1 later_wait_for_comfy_ready [of w1 E api_base 0 "max 180 (total_s - 60)"] b
    by (auto intro: later_trans)
  show ?thesis
    using a b l1 l2
    by (auto simp: reboot_after_request_def split: sum.splits dest: later_sleep intro: later_trans)
qed


lemma reboot_request_loop_stop:
  "\<not> (attempts < 8 \<and> \<not> reboot_accepted) \<Longrightarrow>
   reboot_request_loop E api_base attempts backoff reboot_accepted last_err w
     = (Inr (reboot_accepted, last_err), w)"
  by (subst reboot_request_loop.simps) auto

lemma reboot_request_loop_200:
  "attempts < 8 \<Longrightarrow> get E (api_base @ ''/manager/reboot'') w = ((200, body), w1) \<Longrightarrow>
   reboot_request_loop E api_base attempts backoff False last_err w = (Inr (True, last_err), w1)"
  by (subst reboot_request_loop.simps) simp

lemma reboot_request_loop_gateway:
  "attempts < 8 \<Longrightarrow> get E (api_base @ ''/manager/reboot'') w = ((code, body), w1) \<Longrightarrow>
   code \<in> {502, 503, 504} \<Longrightarrow>
   reboot_request_loop E api_base attempts backoff False last_err w
     = (Inr (True, Some (str_int code @ '': '' @ take 160 body)), w1)"
  by (subst reboot_request_loop.simps) auto

lemma reboot_request_loop_retry:
  "attempts < 8 \<Longrightarrow> get E (api_base @ ''/manager/reboot'') w = ((code, body), w1) \<Longrightarrow>
   code \<notin> reboot_accepted_codes \<Longrightarrow> 0 \<le> backoff \<Longrightarrow>
   reboot_request_loop E api_base attempts backoff False last_err w
     = reboot_request_loop E api_base (attempts + 1) (min (backoff * (17 / 10)) 10) False
         (Some (str_int code @ '': '' @ take 160 body)) (w1\<lparr>clock := clock w1 + backoff\<rparr>)"
  by (subst reboot_request_loop.simps) (auto simp: sleep_def reboot_accepted_codes_def)

lemma later_reboot_request_loop:
  "later w (snd (reboot_request_loop E api_base attempts backoff acc last_err w))"
proof (induction E api_base attempts backoff acc last_err w rule: reboot_request_loop.induct)
  case (1 E api_base attempts backoff acc last_err w)
  show ?case
  proof (cases "attempts < 8 \<and> \<not> acc")
    case False
    then show ?thesis by (simp add: reboot_request_loop_stop later_refl)
  next
    case True
    obtain code body w1 where g: "get E (api_base @ ''/manager/reboot'') w = ((code, body), w1)"
      by (cases "get E (api_base @ ''/manager/reboot'') w") auto
    have l1: "later w w1" using later_get' [OF g] .
    show ?thesis
    proof (cases "code = 200 \<or> code \<in> {502, 503, 504}")
      case acc: True
      with True g l1 show ?thesis
        by (subst reboot_request_loop.simps) auto
    next
      case rej: False
      show ?thesis
      proof (cases "sleep backoff w1")
        case (Inl e)
        with True g rej l1 show ?thesis
          by (subst reboot_request_loop.simps) auto
      next
        case (Inr w2)
        from rej have r1: "code \<noteq> 200" and r2: "code \<notin> {502, 503, 504}" by auto
        note IH = "1.IH" [OF True g [symmetric] refl r1 r2 Inr]
        have "later w w2" using l1 later_sleep [OF Inr] by (rule later_trans)
        with IH have "later w (snd (reboot_request_loop E api_base (attempts + 1)
                                      (min (backoff * (17 / 10)) 10) acc
                                      (Some (str_int code @ '': '' @ take 160 body)) w2))"
          by (blast intro: later_trans)
        with True g rej Inr show ?thesis
          by (subst reboot_request_loop.simps) auto
      qed
    qed
  qed
qed

lemma reboot_request_loop_sends:
  assumes "attempts < 8"
  shows "\<exists>w1. sent w1 = sent w @ [(clock w, reboot_request api_base)]
             \<and> later w1 (snd (reboot_request_loop E api_base attempts backoff False last_err w))"
proof -
  obtain code body w1 where g: "get E (api_base @ ''/manager/reboot'') w = ((code, body), w1)"
    by (cases "get E (api_base @ ''/manager/reboot'') w") auto
  then have s1: "sent w1 = sent w @ [(clock w, reboot_request api_base)]"
    by (auto simp: get_result reboot_request_def)
  have "later w1 (snd (reboot_request_loop E api_base attempts backoff False last_err w))"
  proof (cases "code = 200 \<or> code \<in> {502, 503, 504}")
    case True
    with assms g show ?thesis
      by (subst reboot_request_loop.simps) (auto simp: later_refl)
  next
    case rej: False
    show ?thesis
    proof (cases "sleep backoff w1")
      case (Inl e)
      with assms g rej show ?thesis
        by (subst reboot_request_loop.simps) (auto simp: later_refl)
    next
      case (Inr w2)
      have "later w1 (snd (reboot_request_loop E api_base (attempts + 1)
                             (min (backoff * (17 / 10)) 10) False
                             (Some (str_int code @ '': '' @ take 160 body)) w2))"
        using later_sleep [OF Inr] later_reboot_request_loop by (rule later_trans)
      with assms g rej Inr show ?thesis
        by (subst reboot_request_loop.simps) auto
    qed
  qed
  with s1 show ?thesis by blast
qed

lemma later_reboot_comfy_cycle_from_request:
  "later (snd (reboot_request_loop E api_base 0 (3 / 2) False None w))
         (snd (reboot_comfy_cycle E api_base extra total_s w))"
proof -
  obtain r w1 where rl: "reboot_request_loop E api_base 0 (3 / 2) False None w = (r, w1)"
    by (cases "reboot_request_loop E api_base 0 (3 / 2) False None w") auto
  show ?thesis
    using rl later_reboot_after_request [of w1 E api_base extra total_s]
    by (auto simp: reboot_comfy_cycle_def later_refl split: sum.splits)
qed

lemma reboot_request_loop_skip:
  assumes "\<forall>i<k. status (http E (length (sent w) + i) (reboot_request api_base))
                   \<notin> reboot_accepted_codes"
    and "attempts + k \<le> 8"
    and "3 / 2 \<le> backoff"
  shows "\<exists>w' b' le'.
           reboot_request_loop E api_base attempts backoff False last_err w
             = reboot_request_loop E api_base (attempts + k) b' False le' w'
         \<and> 3 / 2 \<le> b'
         \<and> map snd (sent w') = map snd (sent w) @ replicate k (reboot_request api_base)
         \<and> clock w + of_nat k * (3 / 2) \<le> clock w'
         \<and> le' = (if k = 0 then last_err
                   else Some (str_int (status (http E (length (sent w) + (k - 1))
                                                 (reboot_request api_base)))
                              @ '': ''
                              @ take 160 (resp_text (http E (length (sent w) + (k - 1))
                                                       (reboot_request api_base)))))"
  using assms
proof (induction k arbitrary: attempts backoff w last_err)
  case 0
  have "reboot_request_loop E api_base attempts backoff False last_err w
          = reboot_request_loop E api_base (attempts + 0) backoff False last_err w
        \<and> 3 / 2 \<le> backoff
        \<and> map snd (sent w) = map snd (sent w) @ replicate 0 (reboot_request api_base)
        \<and> clock w + of_nat 0 * (3 / 2) \<le> clock w
        \<and> last_err = (if (0::nat) = 0 then last_err else None)"
    using "0.prems" by simp
  then show ?case by (intro exI [of _ w] exI [of _ backoff] exI [of _ last_err]) simp
next
  case (Suc k)
  let ?rq = "reboot_request api_base"
  let ?a = "next_answer E w ?rq"
  let ?w1 = "w\<lparr>clock := clock w + (1 + of_nat (elapsed ?a)) / 1000,
               sent := sent w @ [(clock w, ?rq)]\<rparr>"
  let ?w2 = "?w1\<lparr>clock := clock ?w1 + backoff\<rparr>"
  let ?b2 = "min (backoff * (17 / 10)) 10"
  let ?le2 = "Some (str_int (status ?a) @ '': '' @ take 160 (resp_text ?a))"
  have g: "get E (api_base @ ''/manager/reboot'') w = ((status ?a, resp_text ?a), ?w1)"
    by (simp add: get_result reboot_request_def)
  from Suc.prems(1) have t0: "status ?a \<notin> reboot_accepted_codes"
    by (auto simp: next_answer_def dest: spec [of _ 0])
  from Suc.prems(2) have lt: "attempts < 8" by simp
  from Suc.prems(3) have b0: "0 \<le> backoff" by simp
  have step: "reboot_request_loop E api_base attempts backoff False last_err w
                = reboot_request_loop E api_base (attempts + 1) ?b2 False ?le2 ?w2"
    by (rule reboot_request_loop_retry [OF lt g t0 b0])
  have h1: "\<forall>i<k. status (http E (length (sent ?w2) + i) ?rq) \<notin> reboot_accepted_codes"
  proof (intro allI impI)
    fix i assume "i < k"
    then have "Suc i < Suc k" by simp
    with Suc.prems(1) have "status (http E (length (sent w) + Suc i) ?rq) \<notin> reboot_accepted_codes"
      by blast
    then show "status (http E (length (sent ?w2) + i) ?rq) \<notin> reboot_accepted_codes" by simp
  qed
  have h2: "(attempts + 1) + k \<le> 8" using Suc.prems(2) by simp
  have h3: "3 / 2 \<le> ?b2" using Suc.prems(3) by (rule backoff_step)
  from Suc.IH [OF h1 h2 h3, of ?le2] obtain w' b' le' where
    r: "reboot_request_loop E api_base (attempts + 1) ?b2 False ?le2 ?w2
          = reboot_request_loop E api_base (attempts + 1 + k) b' False le' w'"
       "3 / 2 \<le> b'"
       "map snd (sent w') = map snd (sent ?w2) @ replicate k ?rq"
       "clock ?w2 + of_nat k * (3 / 2) \<le> clock w'"
       "le' = (if k = 0 then ?le2
               else Some (str_int (status (http E (length (sent ?w2) + (k - 1)) ?rq))
                          @ '': '' @ take 160 (resp_text (http E (length (sent ?w2) + (k - 1)) ?rq))))"
    by blast
  have e1: "reboot_request_loop E api_base attempts backoff False last_err w
              = reboot_request_loop E api_base (attempts + Suc k) b' False le' w'"
    using step r(1) by simp
  have e3: "map snd (sent w') = map snd (sent w) @ replicate (Suc k) ?rq"
    using r(3) by (simp add: replicate_app_Cons_same)
  have nn: "(0::rat) \<le> (1 + of_nat (elapsed ?a)) / 1000"
    by (rule divide_nonneg_nonneg) simp_all
  have "clock ?w2 = clock w + (1 + of_nat (elapsed ?a)) / 1000 + backoff" by simp
  with nn Suc.prems(3) have c2: "clock w + 3 / 2 \<le> clock ?w2" by linarith
  have kk: "(of_nat (Suc k) :: rat) * (3 / 2) = of_nat k * (3 / 2) + 3 / 2"
    by (simp add: algebra_simps)
  have e4: "clock w + of_nat (Suc k) * (3 / 2) \<le> clock w'"
    unfolding kk using r(4) c2 by linarith
  have e5: "le' = (if Suc k = 0 then last_err
                   else Some (str_int (status (http E (length (sent w) + (Suc k - 1)) ?rq))
                              @ '': ''
                              @ take 160 (resp_text (http E (length (sent w) + (Suc k - 1)) ?rq))))"
  proof (cases "k = 0")
    case True
    with r(5) show ?thesis by (simp add: next_answer_def)
  next
    case False
    then have "length (sent ?w2) + (k - 1) = length (sent w) + (Suc k - 1)" by simp
    with r(5) False show ?thesis by simp
  qed
  from e1 r(2) e3 e4 e5 show ?case by blast
qed


text \<open>
  C9. The request phase of \<^verbatim>\<open>reboot_comfy_cycle\<close>, when its first \<open>k\<close> requests (\<open>k < 8\<close>)
  are answered with codes other than 200, 502, 503 and 504. If request \<open>k\<close> is answered
  with one of these four codes, the cycle goes on to the detection of the downtime, after
  \<open>k + 1\<close> requests and \<open>k\<close> sleeps of at least 1.5 s. If it is answered with any other
  code, a further request is sent, unless it was the eighth: then the cycle raises the
  error that the reboot could not be initiated, having sent eight requests.
\<close>

theorem reboot_request_phase:
  assumes "k < 8"
    and "\<forall>i<k. status (reboot_answer E w api_base i) \<notin> reboot_accepted_codes"
  shows
   "(status (reboot_answer E w api_base k) \<in> reboot_accepted_codes \<longrightarrow>
       (\<exists>w'. reboot_comfy_cycle E api_base extra total_s w
                = reboot_after_request E api_base extra total_s w'
            \<and> map snd (sent w') = map snd (sent w) @ replicate (Suc k) (reboot_request api_base)
            \<and> clock w + of_nat k * (3 / 2) \<le> clock w'))
  \<and> (status (reboot_answer E w api_base k) \<notin> reboot_accepted_codes \<longrightarrow>
       (if k = 7
        then (\<exists>w'. reboot_comfy_cycle E api_base extra total_s w
                     = (Inl (RuntimeError
                          (''[reboot] could not initiate reboot: ''
                           @ str_int (status (reboot_answer E w api_base 7))
                           @ '': ''
                           @ take 160 (resp_text (reboot_answer E w api_base 7)))), w')
                \<and> map snd (sent w') = map snd (sent w) @ replicate 8 (reboot_request api_base))
        else (\<exists>xs. map snd (sent (snd (reboot_comfy_cycle E api_base extra total_s w)))
                    = map snd (sent w) @ replicate (k + 2) (reboot_request api_base) @ xs)))"
proof -
  let ?rq = "reboot_request api_base"
  have ans: "reboot_answer E w api_base i = http E (length (sent w) + i) ?rq" for i
    by (simp add: reboot_answer_def)
  have b0: "(3::rat) / 2 \<le> 3 / 2" by simp
  have h1: "\<forall>i<k. status (http E (length (sent w) + i) ?rq) \<notin> reboot_accepted_codes"
    using assms(2) by (simp add: ans)
  have h2: "0 + k \<le> 8" using assms(1) by simp
  from reboot_request_loop_skip [OF h1 h2 b0, of None] obtain wk bk lek where
    sk: "reboot_request_loop E api_base 0 (3 / 2) False None w
           = reboot_request_loop E api_base (0 + k) bk False lek wk"
        "3 / 2 \<le> bk"
        "map snd (sent wk) = map snd (sent w) @ replicate k ?rq"
        "clock w + of_nat k * (3 / 2) \<le> clock wk"
    by blast
  have lk: "length (sent wk) = length (sent w) + k"
    using arg_cong [OF sk(3), of length] by simp
  let ?a = "reboot_answer E w api_base k"
  have na: "next_answer E wk ?rq = ?a"
    by (simp add: next_answer_def ans lk)
  let ?w1 = "wk\<lparr>clock := clock wk + (1 + of_nat (elapsed ?a)) / 1000,
               sent := sent wk @ [(clock wk, ?rq)]\<rparr>"
  have g: "get E (api_base @ ''/manager/reboot'') wk = ((status ?a, resp_text ?a), ?w1)"
    using na by (simp add: get_result reboot_request_def)
  have s1: "map snd (sent ?w1) = map snd (sent w) @ replicate (Suc k) ?rq"
    using sk(3) by (simp add: replicate_append_same)
  have nn: "(0::rat) \<le> (1 + of_nat (elapsed ?a)) / 1000"
    by (rule divide_nonneg_nonneg) simp_all
  have "clock ?w1 = clock wk + (1 + of_nat (elapsed ?a)) / 1000" by simp
  with nn sk(4) have c1: "clock w + of_nat k * (3 / 2) \<le> clock ?w1" by linarith
  have A: "\<exists>w'. reboot_comfy_cycle E api_base extra total_s w
                  = reboot_after_request E api_base extra total_s w'
            \<and> map snd (sent w') = map snd (sent w) @ replicate (Suc k) ?rq
            \<and> clock w + of_nat k * (3 / 2) \<le> clock w'"
    if acc: "status ?a \<in> reboot_accepted_codes"
  proof -
    have "\<exists>le. reboot_request_loop E api_base k bk False lek wk = (Inr (True, le), ?w1)"
    proof (cases "status ?a = 200")
      case True
      with g have "get E (api_base @ ''/manager/reboot'') wk = ((200, resp_text ?a), ?w1)"
        by simp
      from reboot_request_loop_200 [OF assms(1) this] show ?thesis by blast
    next
      case False
      with acc have "status ?a \<in> {502, 503, 504}" by (simp add: reboot_accepted_codes_def)
      from reboot_request_loop_gateway [OF assms(1) g this] show ?thesis by blast
    qed
    then obtain le where "reboot_request_loop E api_base 0 (3 / 2) False None w
                            = (Inr (True, le), ?w1)"
      using sk(1) by auto
    then have "reboot_comfy_cycle E api_base extra total_s w
                 = reboot_after_request E api_base extra total_s ?w1"
      by (simp add: reboot_comfy_cycle_def)
    with s1 c1 show ?thesis by blast
  qed
  let ?w2 = "?w1\<lparr>clock := clock ?w1 + bk\<rparr>"
  let ?b2 = "min (bk * (17 / 10)) 10"
  let ?le2 = "Some (str_int (status ?a) @ '': '' @ take 160 (resp_text ?a))"
  have bk0: "0 \<le> bk" using sk(2) by simp
  have T: "reboot_request_loop E api_base 0 (3 / 2) False None w
             = reboot_request_loop E api_base (k + 1) ?b2 False ?le2 ?w2"
    if rej: "status ?a \<notin> reboot_accepted_codes"
    using sk(1) reboot_request_loop_retry [OF assms(1) g rej bk0] by simp
  have s2: "map snd (sent ?w2) = map snd (sent w) @ replicate (Suc k) ?rq"
    using s1 by simp
  have B: "\<exists>w'. reboot_comfy_cycle E api_base extra total_s w
                  = (Inl (RuntimeError
                       (''[reboot] could not initiate reboot: ''
                        @ str_int (status (reboot_answer E w api_base 7))
                        @ '': ''
                        @ take 160 (resp_text (reboot_answer E w api_base 7)))), w')
            \<and> map snd (sent w') = map snd (sent w) @ replicate 8 ?rq"
    if rej: "status ?a \<notin> reboot_accepted_codes" and k7: "k = 7"
  proof -
    have "reboot_request_loop E api_base 0 (3 / 2) False None w = (Inr (False, ?le2), ?w2)"
      using T [OF rej] k7 by (simp add: reboot_request_loop_stop)
    then have "reboot_comfy_cycle E api_base extra total_s w
                 = (Inl (RuntimeError (''[reboot] could not initiate reboot: ''
                      @ str_int (status ?a) @ '': '' @ take 160 (resp_text ?a))), ?w2)"
      by (simp add: reboot_comfy_cycle_def)
    moreover have "map snd (sent ?w2) = map snd (sent w) @ replicate 8 ?rq"
      using s2 k7 by simp
    ultimately show ?thesis using k7 by blast
  qed
  have C: "\<exists>xs. map snd (sent (snd (reboot_comfy_cycle E api_base extra total_s w)))
                  = map snd (sent w) @ replicate (k + 2) ?rq @ xs"
    if rej: "status ?a \<notin> reboot_accepted_codes" and k7: "k \<noteq> 7"
  proof -
    have lt: "k + 1 < 8" using assms(1) k7 by simp
    from reboot_request_loop_sends [OF lt, of ?w2 api_base E ?b2 ?le2]
    obtain w3 where w3: "sent w3 = sent ?w2 @ [(clock ?w2, ?rq)]"
      "later w3 (snd (reboot_request_loop E api_base (k + 1) ?b2 False ?le2 ?w2))"
      by blast
    from w3(2) have "later w3 (snd (reboot_request_loop E api_base 0 (3 / 2) False None w))"
      unfolding T [OF rej] .
    then have "later w3 (snd (reboot_comfy_cycle E api_base extra total_s w))"
      using later_reboot_comfy_cycle_from_request by (rule later_trans)
    then obtain ys where
      "sent (snd (reboot_comfy_cycle E api_base extra total_s w)) = sent w3 @ ys"
      by (auto dest: later_sent)
    then have "map snd (sent (snd (reboot_comfy_cycle E api_base extra total_s w)))
                 = (map snd (sent w) @ replicate (Suc k) ?rq) @ ?rq # map snd ys"
      using w3(1) s2 by simp
    moreover have "replicate (k + 2) ?rq = replicate (Suc k) ?rq @ [?rq]"
      by (simp add: replicate_append_same)
    ultimately have "map snd (sent (snd (reboot_comfy_cycle E api_base extra total_s w)))
                 = map snd (sent w) @ replicate (k + 2) ?rq @ map snd ys"
      by simp
    then show ?thesis by blast
  qed
  from A B C show ?thesis by simp
qed

theorem reboot_request_phase_witness:
  "(\<exists>w'. reboot_comfy_cycle (numbered_env [500, 403, 503]) ''https://ui-abc123/api'' 30 900 world0
           = reboot_after_request (numbered_env [500, 403, 503]) ''https://ui-abc123/api'' 30 900 w'
       \<and> map snd (sent w')
           = map snd (sent world0) @ replicate 3 (reboot_request ''https://ui-abc123/api'')
       \<and> clock world0 + 2 * (3 / 2) \<le> clock w')
   \<and> (\<exists>w'. reboot_comfy_cycle (numbered_env (replicate 8 500)) ''https://ui-abc123/api'' 30 900
               world0
             = (Inl (RuntimeError ''[reboot] could not initiate reboot: 500: rebooting''), w')
         \<and> map snd (sent w')
             = map snd (sent world0) @ replicate 8 (reboot_request ''https://ui-abc123/api''))"
proof -
  let ?api = "''https://ui-abc123/api''"
  let ?E1 = "numbered_env [500, 403, 503]"
  let ?E2 = "numbered_env (replicate 8 500)"
  have st: "status (reboot_answer (numbered_env cs) world0 ?api i)
              = (if i < length cs then cs ! i else 200)" for cs i
    by (simp add: reboot_answer_def numbered_env_def world0_def)
  have tx: "resp_text (reboot_answer (numbered_env cs) world0 ?api i) = ''rebooting''" for cs i
    by (simp add: reboot_answer_def numbered_env_def world0_def)
  have a1: "(2::nat) < 8" by simp
  have a2: "\<forall>i<2. status (reboot_answer ?E1 world0 ?api i) \<notin> reboot_accepted_codes"
    by (auto simp: st reboot_accepted_codes_def less_2_cases_iff)
  have a3: "status (reboot_answer ?E1 world0 ?api 2) \<in> reboot_accepted_codes"
    by (simp add: st reboot_accepted_codes_def)
  have b1: "(7::nat) < 8" by simp
  have b2: "\<forall>i<7. status (reboot_answer ?E2 world0 ?api i) \<notin> reboot_accepted_codes"
    by (simp add: st reboot_accepted_codes_def)
  have b3: "status (reboot_answer ?E2 world0 ?api 7) \<notin> reboot_accepted_codes"
    by (simp add: st reboot_accepted_codes_def)
  have b4: "status (reboot_answer ?E2 world0 ?api 7) = 500" by (simp add: st)
  have b5: "str_int 500 = ''500''" by code_simp
  from reboot_request_phase [OF a1 a2, of 30 900] a3
  have A: "\<exists>w'. reboot_comfy_cycle ?E1 ?api 30 900 world0
                  = reboot_after_request ?E1 ?api 30 900 w'
            \<and> map snd (sent w') = map snd (sent world0) @ replicate 3 (reboot_request ?api)
            \<and> clock world0 + 2 * (3 / 2) \<le> clock w'"
    by (simp add: numeral_3_eq_3)
  from reboot_request_phase [OF b1 b2, of 30 900] b3
  have B: "\<exists>w'. reboot_comfy_cycle ?E2 ?api 30 900 world0
                  = (Inl (RuntimeError ''[reboot] could not initiate reboot: 500: rebooting''), w')
            \<and> map snd (sent w') = map snd (sent world0) @ replicate 8 (reboot_request ?api)"
    by (simp add: tx b4 b5)
  from A B show ?thesis by blast
qed

section \<open>Properties of the readiness wait\<close>




section \<open>What an install waits for after the enqueue\<close>








lemma wait_queue_idle_verdict:
  assumes "0 \<le> poll_s"
    and "wait_queue_idle E api_base timeout_s poll_s w = (r, w')"
  shows "r = Inr False
       \<or> (r = Inr True
          \<and> (\<exists>w0 body. later w w0 \<and> clock w0 < clock w + timeout_s
                \<and> get E (api_base @ ''/manager/queue/status'') w0 = ((200, body), w')
                \<and> queue_status_idle E body))"
proof -
  from assms(2) have
    lp: "wait_queue_idle_loop E api_base (clock w + timeout_s) poll_s w = (r, w')"
    by (simp add: wait_queue_idle_def)
  note res = wait_queue_idle_loop_result [OF assms(1) lp]
  show ?thesis
  proof (cases "r = Inr True")
    case True
    with res obtain w0 body ys where
      "clock w \<le> clock w0" "clock w0 < clock w + timeout_s" "sent w0 = sent w @ ys"
      "get E (api_base @ ''/manager/queue/status'') w0 = ((200, body), w')"
      "queue_status_idle E body"
      by blast
    moreover then have "later w w0" by (simp add: later_def)
    ultimately show ?thesis using True by blast
  next
    case False
    with res show ?thesis by blast
  qed
qed







section \<open>The fallback of a model that is not whitelisted\<close>

declare wait_workflow_complete_loop.simps [simp del]

lemma later_post: "post E url b c w = (r, w1) \<Longrightarrow> later w w1"
  by (auto simp: later_def post_result)

lemma later_queue_start: "later w (queue_start E api_base w)"
  by (simp add: queue_start_def later_get)

lemma later_queue_reset: "later w (queue_reset E api_base w)"
  by (simp add: queue_reset_def later_get)

lemma later_wait_queue_idle:
  assumes "0 \<le> poll_s"
  shows "later w (snd (wait_queue_idle E api_base timeout_s poll_s w))"
proof -
  obtain r w' where rw: "wait_queue_idle_loop E api_base (clock w + timeout_s) poll_s w = (r, w')"
    by (cases "wait_queue_idle_loop E api_base (clock w + timeout_s) poll_s w") auto
  from wait_queue_idle_loop_result [OF assms rw] rw show ?thesis
    by (auto simp: wait_queue_idle_def later_def)
qed

lemma later_history_fetch: "later w (snd (history_fetch E api_base prompt_id w))"
proof -
  obtain code body w1 where g: "get E (api_base @ ''/history/'' @ prompt_id) w = ((code, body), w1)"
    by (cases "get E (api_base @ ''/history/'' @ prompt_id) w") auto
  have "later w w1" using later_get' [OF g] .
  moreover have "snd (history_fetch E api_base prompt_id w) = w1"
    using g by (auto simp: history_fetch_def split: option.splits json.splits)
  ultimately show ?thesis by simp
qed

lemma later_wait_workflow_complete_loop:
  "later w (snd (wait_workflow_complete_loop E api_base prompt_id deadline poll_s w))"
proof (induction E api_base prompt_id deadline poll_s w rule: wait_workflow_complete_loop.induct)
  case (1 E api_base prompt_id deadline poll_s w)
  show ?case
  proof (cases "clock w < deadline")
    case False
    then show ?thesis
      by (subst wait_workflow_complete_loop.simps) (simp add: later_refl)
  next
    case True
    obtain code hist w1 where h: "history_fetch E api_base prompt_id w = ((code, hist), w1)"
      by (cases "history_fetch E api_base prompt_id w") auto
    have l1: "later w w1" using later_history_fetch [of w E api_base prompt_id] h by simp
    show ?thesis
    proof (cases "workflow_verdict E code hist")
      case (Some r)
      with True h l1 show ?thesis
        by (subst wait_workflow_complete_loop.simps) auto
    next
      case None
      show ?thesis
      proof (cases "sleep poll_s w1")
        case (Inl e)
        with True h None l1 show ?thesis
          by (subst wait_workflow_complete_loop.simps) auto
      next
        case (Inr w2)
        note IH = "1.IH" [OF True h [symmetric] refl None Inr]
        have "later w w2" using l1 later_sleep [OF Inr] by (rule later_trans)
        with IH have "later w (snd (wait_workflow_complete_loop E api_base prompt_id deadline
                                      poll_s w2))"
          by (blast intro: later_trans)
        with True h None Inr show ?thesis
          by (subst wait_workflow_complete_loop.simps) auto
      qed
    qed
  qed
qed

lemma later_prompt_post_loop:
  "later w (snd (prompt_post_loop E bases b c last_text w))"
proof (induction bases arbitrary: w last_text)
  case Nil
  show ?case by (simp add: later_refl)
next
  case (Cons base bases)
  obtain code tx w1 where p: "post E (base @ ''/prompt'') b c w = ((code, tx), w1)"
    by (cases "post E (base @ ''/prompt'') b c w") auto
  have l1: "later w w1" using later_post [OF p] .
  have "later w (snd (prompt_post_loop E bases b c tx w1))"
    using l1 Cons.IH by (rule later_trans)
  with p l1 show ?case by auto
qed

lemma spec_field_or_empty_eq:
  "spec_field spec k = Inr s \<Longrightarrow> spec_field_or_empty spec k = Inr s"
  by (auto simp: spec_field_def spec_field_or_empty_def py_or_def py_strip_def
           split: json.splits if_splits)

lemma run_downloader_workflow_sends:
  assumes "spec_field spec ''url'' = Inr url" and "spec_field spec ''filename'' = Inr filename"
    and "spec_field spec ''subfolder'' = Inr subfolder" and "spec_field spec ''sha256'' = Inr sha256"
    and "url \<noteq> []" and "filename \<noteq> []" and "subfolder \<noteq> []"
  shows "\<exists>xs. map snd (sent (snd (run_downloader_workflow E api_base root_base spec w)))
               = map snd (sent w) @ prompt_request api_base url filename subfolder sha256 # xs"
proof -
  let ?b = "Dumped (downloader_payload url filename subfolder sha256)"
  let ?rq = "prompt_request api_base url filename subfolder sha256"
  have p0: "(0::rat) \<le> 3 / 2" by simp
  obtain code tx w1 where p: "post E (api_base @ ''/prompt'') ?b ''application/json'' w
                                 = ((code, tx), w1)"
    by (cases "post E (api_base @ ''/prompt'') ?b ''application/json'' w") auto
  then have s1: "sent w1 = sent w @ [(clock w, ?rq)]"
    by (auto simp: post_result prompt_request_def)
  obtain pr wp where pp: "prompt_post_try E api_base root_base ?b ''application/json'' w = (pr, wp)"
    by (cases "prompt_post_try E api_base root_base ?b ''application/json'' w") auto
  have lp: "later w1 wp"
  proof (cases "code = 200")
    case True
    with p pp show ?thesis by (auto simp: prompt_post_try_def later_refl)
  next
    case False
    with p pp have "wp = snd (prompt_post_loop E [root_base] ?b ''application/json'' tx w1)"
      by (auto simp: prompt_post_try_def)
    then show ?thesis by (simp only: later_prompt_post_loop)
  qed
  have "later wp (snd (run_downloader_workflow E api_base root_base spec w))"
  proof (cases pr)
    case (Inl t)
    with assms pp show ?thesis
      by (simp add: run_downloader_workflow_def spec_field_or_empty_eq later_refl)
  next
    case (Inr resp)
    show ?thesis
    proof (cases "extract_prompt_id resp")
      case None
      have "later wp (snd (wait_queue_idle E api_base 900 (3 / 2) (queue_start E api_base wp)))"
        using later_queue_start later_wait_queue_idle [OF p0] by (rule later_trans)
      with assms pp Inr None show ?thesis
        by (simp add: run_downloader_workflow_def spec_field_or_empty_eq)
    next
      case (Some prompt_id)
      let ?ws = "queue_start E api_base wp"
      obtain r2 w2 where wf: "wait_workflow_complete E api_base prompt_id 1800 (3 / 2) ?ws = (r2, w2)"
        by (cases "wait_workflow_complete E api_base prompt_id 1800 (3 / 2) ?ws") auto
      have l2: "later wp w2"
        using later_queue_start [of wp E api_base]
              later_wait_workflow_complete_loop [of ?ws E api_base prompt_id "clock ?ws + 1800" "3 / 2"]
              wf
        by (auto simp: wait_workflow_complete_def intro: later_trans)
      have l3: "later wp (snd (wait_queue_idle E api_base 300 (3 / 2) w2))"
        using l2 later_wait_queue_idle [OF p0] by (rule later_trans)
      from assms pp Inr Some wf l2 l3 show ?thesis
        by (auto simp: run_downloader_workflow_def spec_field_or_empty_eq
                 split: sum.splits prod.splits)
    qed
  qed
  with lp have "later w1 (snd (run_downloader_workflow E api_base root_base spec w))"
    by (rule later_trans)
  then obtain ys where
    "sent (snd (run_downloader_workflow E api_base root_base spec w)) = sent w1 @ ys"
    by (auto dest: later_sent)
  with s1 have "map snd (sent (snd (run_downloader_workflow E api_base root_base spec w)))
                  = map snd (sent w) @ ?rq # map snd ys"
    by simp
  then show ?thesis by blast
qed


lemma wait_queue_idle_loop_requests:
  assumes "0 \<le> poll_s"
  shows "\<exists>n. map snd (sent (snd (wait_queue_idle_loop E api_base deadline poll_s w)))
              = map snd (sent w) @ replicate n (GET (api_base @ ''/manager/queue/status''))"
  using assms
proof (induction E api_base deadline poll_s w rule: wait_queue_idle_loop.induct)
  case (1 E api_base deadline poll_s w)
  let ?url = "api_base @ ''/manager/queue/status''"
  show ?case
  proof (cases "clock w < deadline")
    case False
    have "map snd (sent w) = map snd (sent w) @ replicate 0 (GET ?url)" by simp
    then show ?thesis unfolding wait_queue_idle_loop_late [OF False] snd_conv by blast
  next
    case True
    obtain code body w1 where g: "get E ?url w = ((code, body), w1)"
      by (cases "get E ?url w") auto
    have s1: "sent w1 = sent w @ [(clock w, GET ?url)]" using get_sent [of E ?url w] g by simp
    show ?thesis
    proof (cases "code = 200 \<and> queue_status_idle E body")
      case idle: True
      have "map snd (sent w1) = map snd (sent w) @ replicate 1 (GET ?url)" using s1 by simp
      then show ?thesis unfolding wait_queue_idle_loop_idle [OF True g idle] snd_conv by blast
    next
      case busy: False
      let ?w2 = "w1\<lparr>clock := clock w1 + poll_s\<rparr>"
      have sl: "sleep poll_s w1 = Inr ?w2" using "1.prems" by (rule sleep_ok)
      from "1.IH" [OF True g [symmetric] refl busy sl "1.prems"] obtain n where
        "map snd (sent (snd (wait_queue_idle_loop E api_base deadline poll_s ?w2)))
           = map snd (sent ?w2) @ replicate n (GET ?url)" by blast
      then have "map snd (sent (snd (wait_queue_idle_loop E api_base deadline poll_s ?w2)))
           = map snd (sent w) @ replicate (Suc n) (GET ?url)"
        using s1 by simp
      then show ?thesis
        unfolding wait_queue_idle_loop_busy [OF True g busy "1.prems"] by blast
    qed
  qed
qed

lemma first_accepted_less: "first_accepted E n rqs = Some j \<Longrightarrow> j < length rqs"
  by (induction rqs arbitrary: n j) (auto split: if_splits)

lemma first_accepted_append:
  "first_accepted E n (xs @ ys)
     = (case first_accepted E n xs of
          Some j \<Rightarrow> Some j
        | None \<Rightarrow> map_option (\<lambda>k. length xs + k) (first_accepted E (n + length xs) ys))"
proof (induction xs arbitrary: n)
  case Nil
  show ?case by (cases "first_accepted E n ys") simp_all
next
  case (Cons a xs)
  show ?case
  proof (cases "status (http E n a) = 200")
    case True
    then show ?thesis by simp
  next
    case False
    show ?thesis
    proof (cases "first_accepted E (Suc n) xs")
      case (Some j)
      with False Cons.IH [of "Suc n"] show ?thesis by simp
    next
      case None
      with False Cons.IH [of "Suc n"] show ?thesis
        by (cases "first_accepted E (Suc (n + length xs)) ys") simp_all
    qed
  qed
qed

lemma jpost_manager:
  "jpost E (api_base @ path) obj w
     = ((status (next_answer E w (manager_request api_base path obj)),
         resp_text (next_answer E w (manager_request api_base path obj))),
        w\<lparr>clock := clock w
                + (1 + of_nat (elapsed (next_answer E w (manager_request api_base path obj))))
                  / 1000,
          sent := sent w @ [(clock w, manager_request api_base path obj)]\<rparr>)"
  by (simp add: jpost_def post_result manager_request_def)

lemma try_candidates_none:
  "first_accepted E (length (sent w)) (map (manager_request api_base path) cands) = None \<Longrightarrow>
   \<exists>w'. try_candidates E api_base path cands w = (None, w')
      \<and> map snd (sent w') = map snd (sent w) @ map (manager_request api_base path) cands"
proof (induction cands arbitrary: w)
  case Nil
  then show ?case by simp
next
  case (Cons obj rest)
  let ?rq = "manager_request api_base path obj"
  let ?a = "next_answer E w ?rq"
  let ?w1 = "w\<lparr>clock := clock w + (1 + of_nat (elapsed ?a)) / 1000,
               sent := sent w @ [(clock w, ?rq)]\<rparr>"
  from Cons.prems have ne: "status ?a \<noteq> 200"
    and rest: "first_accepted E (length (sent ?w1)) (map (manager_request api_base path) rest) = None"
    by (auto simp: next_answer_def split: if_splits)
  from Cons.IH [OF rest] obtain w' where
    w': "try_candidates E api_base path rest ?w1 = (None, w')"
        "map snd (sent w') = map snd (sent ?w1) @ map (manager_request api_base path) rest"
    by blast
  have "try_candidates E api_base path (obj # rest) w = (None, w')"
    using ne w'(1) by (simp add: jpost_manager)
  moreover have "map snd (sent w')
                   = map snd (sent w) @ map (manager_request api_base path) (obj # rest)"
    using w'(2) by simp
  ultimately show ?case by blast
qed

lemma try_candidates_some:
  "first_accepted E (length (sent w)) (map (manager_request api_base path) cands) = Some j \<Longrightarrow>
   \<exists>w2. try_candidates E api_base path cands w
           = (case wait_queue_idle E api_base 900 (3 / 2) w2 of (r, w3) \<Rightarrow> (Some r, w3))
      \<and> map snd (sent w2)
          = map snd (sent w) @ take (Suc j) (map (manager_request api_base path) cands)
              @ [GET (api_base @ ''/manager/queue/start'')]"
proof (induction cands arbitrary: w j)
  case Nil
  then show ?case by simp
next
  case (Cons obj rest)
  let ?rq = "manager_request api_base path obj"
  let ?a = "next_answer E w ?rq"
  let ?w1 = "w\<lparr>clock := clock w + (1 + of_nat (elapsed ?a)) / 1000,
               sent := sent w @ [(clock w, ?rq)]\<rparr>"
  show ?case
  proof (cases "status ?a = 200")
    case True
    with Cons.prems have j0: "j = 0" by (simp add: next_answer_def)
    let ?w2 = "queue_start E api_base ?w1"
    have "try_candidates E api_base path (obj # rest) w
            = (case wait_queue_idle E api_base 900 (3 / 2) ?w2 of (r, w3) \<Rightarrow> (Some r, w3))"
      using True by (simp add: jpost_manager)
    moreover have "map snd (sent ?w2)
                     = map snd (sent w)
                         @ take (Suc j) (map (manager_request api_base path) (obj # rest))
                         @ [GET (api_base @ ''/manager/queue/start'')]"
      using j0 by (simp add: queue_start_sent)
    ultimately show ?thesis by blast
  next
    case False
    with Cons.prems obtain k where jk: "j = Suc k"
      and rest: "first_accepted E (length (sent ?w1)) (map (manager_request api_base path) rest)
                   = Some k"
      by (auto simp: next_answer_def)
    from Cons.IH [OF rest] obtain w2 where
      w2: "try_candidates E api_base path rest ?w1
             = (case wait_queue_idle E api_base 900 (3 / 2) w2 of (r, w3) \<Rightarrow> (Some r, w3))"
          "map snd (sent w2)
             = map snd (sent ?w1) @ take (Suc k) (map (manager_request api_base path) rest)
                 @ [GET (api_base @ ''/manager/queue/start'')]"
      by blast
    have "try_candidates E api_base path (obj # rest) w
            = (case wait_queue_idle E api_base 900 (3 / 2) w2 of (r, w3) \<Rightarrow> (Some r, w3))"
      using False w2(1) by (simp add: jpost_manager)
    moreover have "map snd (sent w2)
                     = map snd (sent w)
                         @ take (Suc j) (map (manager_request api_base path) (obj # rest))
                         @ [GET (api_base @ ''/manager/queue/start'')]"
      using w2(2) jk by simp
    ultimately show ?thesis by blast
  qed
qed

lemma try_paths_none:
  "first_accepted E (length (sent w))
     (concat (map (\<lambda>path. map (manager_request api_base path) cands) paths)) = None \<Longrightarrow>
   \<exists>w'. try_paths E api_base paths cands w = (None, w')
      \<and> map snd (sent w')
          = map snd (sent w) @ concat (map (\<lambda>path. map (manager_request api_base path) cands) paths)"
proof (induction paths arbitrary: w)
  case Nil
  then show ?case by simp
next
  case (Cons path paths)
  let ?xs = "map (manager_request api_base path) cands"
  let ?ys = "concat (map (\<lambda>path. map (manager_request api_base path) cands) paths)"
  from Cons.prems have fa: "first_accepted E (length (sent w)) (?xs @ ?ys) = None" by simp
  then have x: "first_accepted E (length (sent w)) ?xs = None"
    by (auto simp: first_accepted_append split: option.splits)
  from try_candidates_none [OF x] obtain w1 where
    w1: "try_candidates E api_base path cands w = (None, w1)"
        "map snd (sent w1) = map snd (sent w) @ ?xs" by blast
  have l1: "length (sent w1) = length (sent w) + length ?xs"
    using arg_cong [OF w1(2), of length] by simp
  from fa x have y: "first_accepted E (length (sent w1)) ?ys = None"
    by (simp add: first_accepted_append l1)
  from Cons.IH [OF y] obtain w' where
    w': "try_paths E api_base paths cands w1 = (None, w')"
        "map snd (sent w') = map snd (sent w1) @ ?ys" by blast
  have "try_paths E api_base (path # paths) cands w = (None, w')"
    using w1(1) w'(1) by simp
  moreover have "map snd (sent w')
                   = map snd (sent w)
                       @ concat (map (\<lambda>path. map (manager_request api_base path) cands) (path # paths))"
    using w1(2) w'(2) by simp
  ultimately show ?case by blast
qed

lemma try_paths_some:
  "first_accepted E (length (sent w))
     (concat (map (\<lambda>path. map (manager_request api_base path) cands) paths)) = Some j \<Longrightarrow>
   \<exists>w2. try_paths E api_base paths cands w
           = (case wait_queue_idle E api_base 900 (3 / 2) w2 of (r, w3) \<Rightarrow> (Some r, w3))
      \<and> map snd (sent w2)
          = map snd (sent w)
              @ take (Suc j) (concat (map (\<lambda>path. map (manager_request api_base path) cands) paths))
              @ [GET (api_base @ ''/manager/queue/start'')]"
proof (induction paths arbitrary: w j)
  case Nil
  then show ?case by simp
next
  case (Cons path paths)
  let ?xs = "map (manager_request api_base path) cands"
  let ?ys = "concat (map (\<lambda>path. map (manager_request api_base path) cands) paths)"
  from Cons.prems have fa: "first_accepted E (length (sent w)) (?xs @ ?ys) = Some j" by simp
  show ?case
  proof (cases "first_accepted E (length (sent w)) ?xs")
    case (Some i)
    with fa have ij: "i = j" by (simp add: first_accepted_append)
    from first_accepted_less [OF Some] ij have jl: "j < length ?xs" by simp
    from try_candidates_some [OF Some] ij obtain w2 where
      w2: "try_candidates E api_base path cands w
             = (case wait_queue_idle E api_base 900 (3 / 2) w2 of (r, w3) \<Rightarrow> (Some r, w3))"
          "map snd (sent w2) = map snd (sent w) @ take (Suc j) ?xs
             @ [GET (api_base @ ''/manager/queue/start'')]"
      by blast
    have "try_paths E api_base (path # paths) cands w
            = (case wait_queue_idle E api_base 900 (3 / 2) w2 of (r, w3) \<Rightarrow> (Some r, w3))"
      using w2(1) by (simp split: prod.splits)
    moreover have "take (Suc j) (?xs @ ?ys) = take (Suc j) ?xs" using jl by simp
    then have "map snd (sent w2)
                 = map snd (sent w)
                     @ take (Suc j) (concat (map (\<lambda>path. map (manager_request api_base path) cands)
                                               (path # paths)))
                     @ [GET (api_base @ ''/manager/queue/start'')]"
      using w2(2) by simp
    ultimately show ?thesis by blast
  next
    case None
    from try_candidates_none [OF None] obtain w1 where
      w1: "try_candidates E api_base path cands w = (None, w1)"
          "map snd (sent w1) = map snd (sent w) @ ?xs" by blast
    have l1: "length (sent w1) = length (sent w) + length ?xs"
      using arg_cong [OF w1(2), of length] by simp
    from fa None obtain k where jk: "j = length ?xs + k"
      and y: "first_accepted E (length (sent w1)) ?ys = Some k"
      by (auto simp: first_accepted_append l1)
    from Cons.IH [OF y] obtain w2 where
      w2: "try_paths E api_base paths cands w1
             = (case wait_queue_idle E api_base 900 (3 / 2) w2 of (r, w3) \<Rightarrow> (Some r, w3))"
          "map snd (sent w2) = map snd (sent w1) @ take (Suc k) ?ys
             @ [GET (api_base @ ''/manager/queue/start'')]"
      by blast
    have "try_paths E api_base (path # paths) cands w
            = (case wait_queue_idle E api_base 900 (3 / 2) w2 of (r, w3) \<Rightarrow> (Some r, w3))"
      using w1(1) w2(1) by simp
    moreover have "take (Suc j) (?xs @ ?ys) = ?xs @ take (Suc k) ?ys" using jk by simp
    then have "map snd (sent w2)
                 = map snd (sent w)
                     @ take (Suc j) (concat (map (\<lambda>path. map (manager_request api_base path) cands)
                                               (path # paths)))
                     @ [GET (api_base @ ''/manager/queue/start'')]"
      using w2(2) w1(2) by simp
    ultimately show ?thesis by blast
  qed
qed


lemma install_nonwhitelisted_model_cases:
  assumes "spec_field spec ''url'' = Inr url" and "spec_field spec ''filename'' = Inr filename"
    and "spec_field spec ''subfolder'' = Inr subfolder" and "spec_field spec ''sha256'' = Inr sha256"
    and "url \<noteq> []" and "filename \<noteq> []" and "subfolder \<noteq> []"
  shows
   "(first_accepted E (Suc (length (sent w)))
       (manager_requests api_base (manager_candidates url filename subfolder sha256)) = None \<longrightarrow>
       (\<exists>w1 xs. install_nonwhitelisted_model E api_base root_base spec w
                   = run_downloader_workflow E api_base root_base spec w1
              \<and> map snd (sent w1)
                  = map snd (sent w) @ GET (api_base @ ''/manager/queue/reset'')
                      # manager_requests api_base (manager_candidates url filename subfolder sha256)
              \<and> map snd (sent (snd (install_nonwhitelisted_model E api_base root_base spec w)))
                  = map snd (sent w1) @ prompt_request api_base url filename subfolder sha256 # xs))
  \<and> (\<forall>j. first_accepted E (Suc (length (sent w)))
            (manager_requests api_base (manager_candidates url filename subfolder sha256)) = Some j \<longrightarrow>
       (\<exists>w2 r w3.
           map snd (sent w2)
             = map snd (sent w) @ GET (api_base @ ''/manager/queue/reset'')
                 # take (Suc j)
                     (manager_requests api_base (manager_candidates url filename subfolder sha256))
                 @ [GET (api_base @ ''/manager/queue/start'')]
         \<and> wait_queue_idle E api_base 900 (3 / 2) w2 = (r, w3)
         \<and> (r = Inr True \<or> r = Inr False)
         \<and> (r = Inr True \<longrightarrow>
               install_nonwhitelisted_model E api_base root_base spec w = (Inr True, w3)
             \<and> (\<exists>n. map snd (sent w3)
                      = map snd (sent w2)
                          @ replicate n (GET (api_base @ ''/manager/queue/status'')))
             \<and> (\<exists>w0 body. later w2 w0 \<and> clock w0 < clock w2 + 900
                   \<and> get E (api_base @ ''/manager/queue/status'') w0 = ((200, body), w3)
                   \<and> queue_status_idle E body))
         \<and> (r = Inr False \<longrightarrow>
               install_nonwhitelisted_model E api_base root_base spec w
                 = run_downloader_workflow E api_base root_base spec w3
             \<and> (\<exists>xs. map snd (sent (snd (install_nonwhitelisted_model E api_base root_base spec w)))
                       = map snd (sent w3)
                           @ prompt_request api_base url filename subfolder sha256 # xs))))"
proof -
  let ?cands = "manager_candidates url filename subfolder sha256"
  let ?reqs = "manager_requests api_base ?cands"
  let ?reset = "GET (api_base @ ''/manager/queue/reset'')"
  let ?prompt = "prompt_request api_base url filename subfolder sha256"
  let ?w0 = "queue_reset E api_base w"
  have p0: "(0::rat) \<le> 3 / 2" by simp
  have s0: "map snd (sent ?w0) = map snd (sent w) @ [?reset]" by (simp add: queue_reset_sent)
  have l0: "length (sent ?w0) = Suc (length (sent w))" by (simp add: queue_reset_sent)
  have reqs: "?reqs = concat (map (\<lambda>path. map (manager_request api_base path) ?cands)
                               install_url_paths)"
    by (simp add: manager_requests_def)
  have via: "install_nonwhitelisted_model_via_manager E api_base spec w
               = (case try_paths E api_base install_url_paths ?cands ?w0 of
                    (Some r, w2) \<Rightarrow> (r, w2)
                  | (None, w2) \<Rightarrow> (Inr False, w2))"
    using assms by (simp add: install_nonwhitelisted_model_via_manager_def)
  note fb = run_downloader_workflow_sends [OF assms, of E api_base root_base]
  have A: "\<exists>w1 xs. install_nonwhitelisted_model E api_base root_base spec w
                     = run_downloader_workflow E api_base root_base spec w1
              \<and> map snd (sent w1) = map snd (sent w) @ ?reset # ?reqs
              \<and> map snd (sent (snd (install_nonwhitelisted_model E api_base root_base spec w)))
                  = map snd (sent w1) @ ?prompt # xs"
    if none: "first_accepted E (Suc (length (sent w))) ?reqs = None"
  proof -
    from none have "first_accepted E (length (sent ?w0))
                      (concat (map (\<lambda>path. map (manager_request api_base path) ?cands)
                                 install_url_paths)) = None"
      by (simp add: l0 reqs)
    from try_paths_none [OF this] obtain w1 where
      w1: "try_paths E api_base install_url_paths ?cands ?w0 = (None, w1)"
          "map snd (sent w1) = map snd (sent ?w0) @ ?reqs"
      unfolding reqs by blast
    have i: "install_nonwhitelisted_model E api_base root_base spec w
               = run_downloader_workflow E api_base root_base spec w1"
      using via w1(1) by (simp add: install_nonwhitelisted_model_def)
    from fb [of w1] obtain xs where
      "map snd (sent (snd (run_downloader_workflow E api_base root_base spec w1)))
         = map snd (sent w1) @ ?prompt # xs" by blast
    with i w1(2) s0 show ?thesis by auto
  qed
  have B: "\<exists>w2 r w3.
           map snd (sent w2) = map snd (sent w) @ ?reset # take (Suc j) ?reqs
                                 @ [GET (api_base @ ''/manager/queue/start'')]
         \<and> wait_queue_idle E api_base 900 (3 / 2) w2 = (r, w3)
         \<and> (r = Inr True \<or> r = Inr False)
         \<and> (r = Inr True \<longrightarrow>
               install_nonwhitelisted_model E api_base root_base spec w = (Inr True, w3)
             \<and> (\<exists>n. map snd (sent w3)
                      = map snd (sent w2)
                          @ replicate n (GET (api_base @ ''/manager/queue/status'')))
             \<and> (\<exists>w0 body. later w2 w0 \<and> clock w0 < clock w2 + 900
                   \<and> get E (api_base @ ''/manager/queue/status'') w0 = ((200, body), w3)
                   \<and> queue_status_idle E body))
         \<and> (r = Inr False \<longrightarrow>
               install_nonwhitelisted_model E api_base root_base spec w
                 = run_downloader_workflow E api_base root_base spec w3
             \<and> (\<exists>xs. map snd (sent (snd (install_nonwhitelisted_model E api_base root_base spec w)))
                       = map snd (sent w3) @ ?prompt # xs))"
    if some: "first_accepted E (Suc (length (sent w))) ?reqs = Some j" for j
  proof -
    from some have "first_accepted E (length (sent ?w0))
                      (concat (map (\<lambda>path. map (manager_request api_base path) ?cands)
                                 install_url_paths)) = Some j"
      by (simp add: l0 reqs)
    from try_paths_some [OF this] obtain w2 where
      w2: "try_paths E api_base install_url_paths ?cands ?w0
             = (case wait_queue_idle E api_base 900 (3 / 2) w2 of (r, w3) \<Rightarrow> (Some r, w3))"
          "map snd (sent w2) = map snd (sent ?w0) @ take (Suc j) ?reqs
             @ [GET (api_base @ ''/manager/queue/start'')]"
      unfolding reqs by blast
    obtain r w3 where wq: "wait_queue_idle E api_base 900 (3 / 2) w2 = (r, w3)"
      by (cases "wait_queue_idle E api_base 900 (3 / 2) w2") auto
    have v: "install_nonwhitelisted_model_via_manager E api_base spec w = (r, w3)"
      using via w2(1) wq by simp
    note verdict = wait_queue_idle_verdict [OF p0 wq]
    have t0: "map snd (sent w2) = map snd (sent w) @ ?reset # take (Suc j) ?reqs
                @ [GET (api_base @ ''/manager/queue/start'')]"
      using w2(2) s0 by simp
    have t1: "r = Inr True \<or> r = Inr False" using verdict by blast
    have t2: "install_nonwhitelisted_model E api_base root_base spec w = (Inr True, w3)
             \<and> (\<exists>n. map snd (sent w3)
                      = map snd (sent w2)
                          @ replicate n (GET (api_base @ ''/manager/queue/status'')))
             \<and> (\<exists>w0 body. later w2 w0 \<and> clock w0 < clock w2 + 900
                   \<and> get E (api_base @ ''/manager/queue/status'') w0 = ((200, body), w3)
                   \<and> queue_status_idle E body)"
      if t: "r = Inr True"
    proof -
      have "install_nonwhitelisted_model E api_base root_base spec w = (Inr True, w3)"
        using v t by (simp add: install_nonwhitelisted_model_def)
      moreover have "\<exists>n. map snd (sent w3)
                      = map snd (sent w2)
                          @ replicate n (GET (api_base @ ''/manager/queue/status''))"
        using wait_queue_idle_loop_requests [OF p0, of E api_base "clock w2 + 900" w2] wq
        by (simp add: wait_queue_idle_def)
      moreover have "\<exists>w0 body. later w2 w0 \<and> clock w0 < clock w2 + 900
                   \<and> get E (api_base @ ''/manager/queue/status'') w0 = ((200, body), w3)
                   \<and> queue_status_idle E body"
        using verdict t by blast
      ultimately show ?thesis by blast
    qed
    have t3: "install_nonwhitelisted_model E api_base root_base spec w
                 = run_downloader_workflow E api_base root_base spec w3
             \<and> (\<exists>xs. map snd (sent (snd (install_nonwhitelisted_model E api_base root_base spec w)))
                       = map snd (sent w3) @ ?prompt # xs)"
      if f: "r = Inr False"
    proof -
      have i: "install_nonwhitelisted_model E api_base root_base spec w
                 = run_downloader_workflow E api_base root_base spec w3"
        using v f by (simp add: install_nonwhitelisted_model_def)
      with fb [of w3] show ?thesis by simp
    qed
    from t0 wq t1 t2 t3 show ?thesis by blast
  qed
  from A B show ?thesis by blast
qed

text \<open>
  C4, as the code has it, for a spec whose url, filename and subfolder are strings that are
  not empty once stripped. When none of the eight requests to the install endpoints is
  answered 200, the downloader workflow runs, and its first request is the \<^verbatim>\<open>/prompt\<close>
  POST. When request \<open>j\<close> is the first one answered 200, the start signal follows and the
  queue is polled for 900 s: if it is seen idle the call returns true right away, having
  sent status requests only after the start signal; if it is not, the downloader workflow
  runs all the same.
\<close>

theorem install_nonwhitelisted_model_fallback:
  assumes "spec_field spec ''url'' = Inr url" and "spec_field spec ''filename'' = Inr filename"
    and "spec_field spec ''subfolder'' = Inr subfolder" and "spec_field spec ''sha256'' = Inr sha256"
    and "url \<noteq> []" and "filename \<noteq> []" and "subfolder \<noteq> []"
  shows
   "(first_accepted E (Suc (length (sent w)))
       (manager_requests api_base (manager_candidates url filename subfolder sha256)) = None \<longrightarrow>
       (\<exists>w1 xs. install_nonwhitelisted_model E api_base root_base spec w
                   = run_downloader_workflow E api_base root_base spec w1
              \<and> map snd (sent w1)
                  = map snd (sent w) @ GET (api_base @ ''/manager/queue/reset'')
                      # manager_requests api_base (manager_candidates url filename subfolder sha256)
              \<and> map snd (sent (snd (install_nonwhitelisted_model E api_base root_base spec w)))
                  = map snd (sent w1) @ prompt_request api_base url filename subfolder sha256 # xs))
  \<and> (\<forall>j. first_accepted E (Suc (length (sent w)))
            (manager_requests api_base (manager_candidates url filename subfolder sha256)) = Some j \<longrightarrow>
       (\<exists>w2 r w3.
           map snd (sent w2)
             = map snd (sent w) @ GET (api_base @ ''/manager/queue/reset'')
                 # take (Suc j)
                     (manager_requests api_base (manager_candidates url filename subfolder sha256))
                 @ [GET (api_base @ ''/manager/queue/start'')]
         \<and> wait_queue_idle E api_base 900 (3 / 2) w2 = (r, w3)
         \<and> (r = Inr True \<or> r = Inr False)
         \<and> (r = Inr True \<longrightarrow>
               install_nonwhitelisted_model E api_base root_base spec w = (Inr True, w3)
             \<and> (\<exists>n. map snd (sent w3)
                      = map snd (sent w2)
                          @ replicate n (GET (api_base @ ''/manager/queue/status'')))
             \<and> (\<exists>w0 body. later w2 w0 \<and> clock w0 < clock w2 + 900
                   \<and> get E (api_base @ ''/manager/queue/status'') w0 = ((200, body), w3)
                   \<and> queue_status_idle E body))
         \<and> (r = Inr False \<longrightarrow>
               install_nonwhitelisted_model E api_base root_base spec w
                 = run_downloader_workflow E api_base root_base spec w3
             \<and> (\<exists>xs. map snd (sent (snd (install_nonwhitelisted_model E api_base root_base spec w)))
                       = map snd (sent w3)
                           @ prompt_request api_base url filename subfolder sha256 # xs))))"
  using assms by (rule install_nonwhitelisted_model_cases)

lemma sample_spec_fields:
  "spec_field sample_spec ''url'' = Inr ''https://example.org/Chroma-HD.safetensors''"
  "spec_field sample_spec ''filename'' = Inr ''Chroma-HD.safetensors''"
  "spec_field sample_spec ''subfolder'' = Inr ''diffusion_models''"
  "spec_field sample_spec ''sha256'' = Inr []"
  by code_simp+

theorem install_nonwhitelisted_model_fallback_witness:
  "\<exists>w2 w3.
      map snd (sent w2)
        = map snd (sent world0) @ GET (''https://ui-abc123/api'' @ ''/manager/queue/reset'')
            # take (Suc 0)
                (manager_requests ''https://ui-abc123/api''
                   (manager_candidates ''https://example.org/Chroma-HD.safetensors''
                      ''Chroma-HD.safetensors'' ''diffusion_models'' []))
            @ [GET (''https://ui-abc123/api'' @ ''/manager/queue/start'')]
    \<and> wait_queue_idle (steady_env queue_idle_json) ''https://ui-abc123/api'' 900 (3 / 2) w2
        = (Inr True, w3)
    \<and> install_nonwhitelisted_model (steady_env queue_idle_json) ''https://ui-abc123/api''
          ''https://ui-abc123'' sample_spec world0 = (Inr True, w3)
    \<and> (\<exists>n. map snd (sent w3)
             = map snd (sent w2)
                 @ replicate n (GET (''https://ui-abc123/api'' @ ''/manager/queue/status'')))"
proof -
  let ?E = "steady_env queue_idle_json"
  let ?api = "''https://ui-abc123/api''"
  let ?reqs = "manager_requests ?api
                 (manager_candidates ''https://example.org/Chroma-HD.safetensors''
                    ''Chroma-HD.safetensors'' ''diffusion_models'' [])"
  have ne: "''https://example.org/Chroma-HD.safetensors'' \<noteq> []" "''Chroma-HD.safetensors'' \<noteq> []"
    "''diffusion_models'' \<noteq> []" by simp_all
  have fa: "first_accepted ?E (Suc (length (sent world0))) ?reqs = Some 0"
    by (simp add: steady_env_def manager_requests_def manager_candidates_def
                  install_url_paths_def)
  have idle: "queue_status_idle ?E b" for b
    by (simp add: queue_status_idle_def steady_env_def queue_idle_json_def py_get_def
                  py_get_default_def)
  have now: "fst (wait_queue_idle ?E ?api 900 (3 / 2) v) = Inr True" for v
  proof -
    let ?url = "?api @ ''/manager/queue/status''"
    have c: "clock v < clock v + 900" by simp
    have g: "get ?E ?url v = ((200, resp_text (next_answer ?E v (GET ?url))), snd (get ?E ?url v))"
      by (simp add: get_result steady_env_def next_answer_def)
    have i: "200 = (200::int) \<and> queue_status_idle ?E (resp_text (next_answer ?E v (GET ?url)))"
      using idle by simp
    from wait_queue_idle_loop_idle [OF c g i] show ?thesis
      by (simp add: wait_queue_idle_def)
  qed
  from install_nonwhitelisted_model_fallback [OF sample_spec_fields ne,
         of ?E world0 ?api "''https://ui-abc123''"] fa
  obtain w2 r w3 where
    h: "map snd (sent w2)
          = map snd (sent world0) @ GET (?api @ ''/manager/queue/reset'') # take (Suc 0) ?reqs
              @ [GET (?api @ ''/manager/queue/start'')]"
       "wait_queue_idle ?E ?api 900 (3 / 2) w2 = (r, w3)"
       "r = Inr True \<longrightarrow>
          install_nonwhitelisted_model ?E ?api ''https://ui-abc123'' sample_spec world0
            = (Inr True, w3)
          \<and> (\<exists>n. map snd (sent w3)
                   = map snd (sent w2) @ replicate n (GET (?api @ ''/manager/queue/status'')))
          \<and> (\<exists>w0 body. later w2 w0 \<and> clock w0 < clock w2 + 900
                \<and> get ?E (?api @ ''/manager/queue/status'') w0 = ((200, body), w3)
                \<and> queue_status_idle ?E body)"
    by blast
  from now [of w2] h(2) have r: "r = Inr True" by simp
  with h show ?thesis by blast
qed

text \<open>
  The first request to an install endpoint is answered 200, the queue stays busy for
  900 s, and the \<^verbatim>\<open>/prompt\<close> POST of the downloader workflow is sent.
\<close>

theorem install_nonwhitelisted_model_fallback_counterexample:
  "first_accepted accepting_busy_env (Suc (length (sent world0)))
     (manager_requests ''https://ui-abc123/api''
        (manager_candidates ''https://example.org/Chroma-HD.safetensors''
           ''Chroma-HD.safetensors'' ''diffusion_models'' [])) = Some 0
   \<and> prompt_request ''https://ui-abc123/api'' ''https://example.org/Chroma-HD.safetensors''
         ''Chroma-HD.safetensors'' ''diffusion_models'' []
       \<in> set (map snd (sent (snd (install_nonwhitelisted_model accepting_busy_env
                                     ''https://ui-abc123/api'' ''https://ui-abc123''
                                     sample_spec world0))))"
proof -
  let ?E = "accepting_busy_env"
  let ?api = "''https://ui-abc123/api''"
  let ?reqs = "manager_requests ?api
                 (manager_candidates ''https://example.org/Chroma-HD.safetensors''
                    ''Chroma-HD.safetensors'' ''diffusion_models'' [])"
  have ne: "''https://example.org/Chroma-HD.safetensors'' \<noteq> []" "''Chroma-HD.safetensors'' \<noteq> []"
    "''diffusion_models'' \<noteq> []" by simp_all
  have fa: "first_accepted ?E (Suc (length (sent world0))) ?reqs = Some 0"
    by (simp add: accepting_busy_env_def manager_requests_def manager_candidates_def
                  install_url_paths_def manager_request_def)
  have busy: "\<not> queue_status_idle ?E b" for b
    by (simp add: queue_status_idle_def accepting_busy_env_def queue_processing_json_def
                  py_get_def)
  from install_nonwhitelisted_model_cases [OF sample_spec_fields ne,
         of ?E world0 ?api "''https://ui-abc123''"] fa
  obtain w2 r w3 where
    h: "r = Inr True \<or> r = Inr False"
       "r = Inr True \<longrightarrow>
          (\<exists>w0 body. later w2 w0 \<and> clock w0 < clock w2 + 900
                \<and> get ?E (?api @ ''/manager/queue/status'') w0 = ((200, body), w3)
                \<and> queue_status_idle ?E body)"
       "r = Inr False \<longrightarrow>
          (\<exists>xs. map snd (sent (snd (install_nonwhitelisted_model ?E ?api ''https://ui-abc123''
                                       sample_spec world0)))
                  = map snd (sent w3)
                      @ prompt_request ?api ''https://example.org/Chroma-HD.safetensors''
                          ''Chroma-HD.safetensors'' ''diffusion_models'' [] # xs)"
    by blast
  from h(2) busy have "r \<noteq> Inr True" by blast
  with h(1) have "r = Inr False" by simp
  with h(3) obtain xs where
    "map snd (sent (snd (install_nonwhitelisted_model ?E ?api ''https://ui-abc123''
                           sample_spec world0)))
       = map snd (sent w3)
           @ prompt_request ?api ''https://example.org/Chroma-HD.safetensors''
               ''Chroma-HD.safetensors'' ''diffusion_models'' [] # xs"
    by blast
  then have "prompt_request ?api ''https://example.org/Chroma-HD.safetensors''
               ''Chroma-HD.safetensors'' ''diffusion_models'' []
             \<in> set (map snd (sent (snd (install_nonwhitelisted_model ?E ?api ''https://ui-abc123''
                                           sample_spec world0))))"
    by (simp only: set_append list.set) simp
  with fa show ?thesis by (rule conjI)
qed

end
